theory Spec2Isabelle
  imports Main "HOL-Library.Word"
begin

section \<open>The commit log segment (server/commitlog/segment.go)\<close>

text \<open>
  A segment owns one log file and one index. The model keeps the fields of the Go struct.
  The log file is its content (a byte list), the index is the list of entries it holds.
  The 64-bit signed fields are unbounded integers: file sizes and offsets stay far from
  the wrap-around. Every call into the operating system can fail; the outcome of each such
  call is an argument of the operation that makes it, so that every early return of the
  source is a branch of the model. The methods run under the segment's lock, so each one
  is one atomic step on the state.
\<close>

type_synonym byte = "8 word"

datatype error =
    ErrEntryNotFound
  | ErrSegmentClosed
  | ErrSegmentExists
  | ErrSegmentReplaced
  | EOF
  | ErrUnexpectedEOF
  | ErrPartitionExists
  | ErrStreamNotFound
  | ErrPartitionNotFound
  | ErrNoSuchPartition string "32 word"
  | ErrNotReplica string
  | ErrUnknownOp string
  | ErrSyntax string
  | ErrRange string
  | IOError string
  | Wrap string error

text \<open>A Go runtime panic: an index out of range, or the close of a closed channel.\<close>

datatype 'a result = Panic string | Return 'a

record entry =
  Offset :: int
  Timestamp :: int
  Position :: int

text \<open>
  A channel is an address. \<open>nextChan\<close> is the next address \<open>make(chan struct{})\<close> hands
  out and \<open>closedChans\<close> holds the channels that have been closed. The waiters map is an
  association list: its order stands for the unspecified iteration order of a Go map.
\<close>

type_synonym chan = nat

record 'w segment =
  logData :: "byte list"
  Index :: "entry list"
  BaseOffset :: int
  firstOffset :: int
  lastOffset :: int
  firstWriteTime :: int
  lastWriteTime :: int
  position :: int
  maxBytes :: int
  path :: string
  suffix :: string
  waiters :: "('w \<times> chan) list"
  sealed :: bool
  closed :: bool
  replaced :: bool
  nextChan :: nat
  closedChans :: "chan set"

subsection \<open>newSegment and setupIndex\<close>

text \<open>
  Modelled from the spec: the index (index.go is not among the sources) holds fixed-width
  entries in write order; \<open>InitializePosition\<close> returns its last entry, or nil when it is
  empty, and \<open>ReadEntryAtFileOffset(e, 0)\<close> reads its first entry. \<open>ix\<close> is the outcome of
  opening and reading the index file: an error, or the entries found there.
\<close>

definition setupIndex :: "'w segment \<Rightarrow> error + entry list \<Rightarrow> error option \<times> 'w segment" where
  "setupIndex s ix =
     (case ix of
        Inl err \<Rightarrow> (Some err, s)
      | Inr es \<Rightarrow>
         (let s1 = s\<lparr>Index := es\<rparr> in
          if es \<noteq> [] then
            (None, s1\<lparr>lastOffset := Offset (last es), lastWriteTime := Timestamp (last es),
                      firstOffset := Offset (hd es), firstWriteTime := Timestamp (hd es)\<rparr>)
          else (None, s1)))"

text \<open>
  \<open>newSegment\<close>: \<open>present\<close> says whether the log file exists already, \<open>opened\<close> is the
  outcome of \<open>os.OpenFile\<close> together with \<open>Stat\<close> (the content of the file, whose length
  is its size). The result is the segment, if any, and the error.
\<close>

definition newSegment ::
  "string \<Rightarrow> int \<Rightarrow> int \<Rightarrow> bool \<Rightarrow> string \<Rightarrow> bool \<Rightarrow> error + byte list \<Rightarrow> error + entry list
     \<Rightarrow> 'w segment option \<times> error option" where
  "newSegment pth baseOffset maxB isNew suff present opened ix =
     (let s = \<lparr>logData = [], Index = [], BaseOffset = baseOffset, firstOffset = -1,
                lastOffset = -1, firstWriteTime = 0, lastWriteTime = 0, position = 0,
                maxBytes = maxB, path = pth, suffix = suff, waiters = [], sealed = False,
                closed = False, replaced = False, nextChan = 0, closedChans = {}\<rparr> in
      if isNew \<and> present then (None, Some ErrSegmentExists)
      else case opened of
        Inl err \<Rightarrow> (None, Some (Wrap ''open file failed'' err))
      | Inr bytes \<Rightarrow>
         (let s1 = s\<lparr>logData := bytes, position := int (length bytes)\<rparr>;
              (err, s2) = setupIndex s1 ix
          in (Some s2, err)))"

subsection \<open>Waiters\<close>

text \<open>
  \<open>close(ch)\<close> panics on a channel that is closed already. \<open>notifyWaiters\<close> ranges over
  the map, closing each channel and deleting its key.
\<close>

definition mapDelete :: "'k \<Rightarrow> ('k \<times> 'v) list \<Rightarrow> ('k \<times> 'v) list" where
  "mapDelete k m = filter (\<lambda>kv. fst kv \<noteq> k) m"

definition mapSet :: "'k \<Rightarrow> 'v \<Rightarrow> ('k \<times> 'v) list \<Rightarrow> ('k \<times> 'v) list" where
  "mapSet k v m = (k, v) # mapDelete k m"

fun notifyLoop :: "('w \<times> chan) list \<Rightarrow> 'w segment \<Rightarrow> 'w segment result" where
  "notifyLoop [] s = Return s"
| "notifyLoop ((r, ch) # rest) s =
     (if ch \<in> closedChans s then Panic ''close of closed channel''
      else notifyLoop rest
             (s\<lparr>closedChans := insert ch (closedChans s), waiters := mapDelete r (waiters s)\<rparr>))"

definition notifyWaiters :: "'w segment \<Rightarrow> 'w segment result" where
  "notifyWaiters s = notifyLoop (waiters s) s"

text \<open>\<open>waitForData\<close> returns the channel and the segment.\<close>

definition waitForData :: "'w segment \<Rightarrow> 'w \<Rightarrow> int \<Rightarrow> chan \<times> 'w segment" where
  "waitForData s waiter pos =
     (case map_of (waiters s) waiter of
        Some wait \<Rightarrow> (wait, s)
      | None \<Rightarrow>
         (let wait = nextChan s; s1 = s\<lparr>nextChan := Suc (nextChan s)\<rparr> in
          if position s1 > pos \<or> position s1 \<ge> maxBytes s1
          then (wait, s1\<lparr>closedChans := insert wait (closedChans s1)\<rparr>)
          else (wait, s1\<lparr>waiters := mapSet waiter wait (waiters s1)\<rparr>)))"

definition WaitForData :: "'w segment \<Rightarrow> 'w \<Rightarrow> int \<Rightarrow> chan \<times> 'w segment" where
  "WaitForData s waiter pos = waitForData s waiter pos"

definition WaitForLEO :: "'w segment \<Rightarrow> 'w \<Rightarrow> int \<Rightarrow> chan \<times> 'w segment" where
  "WaitForLEO s waiter leo =
     (if lastOffset s \<noteq> leo then
        (let ch = nextChan s; s1 = s\<lparr>nextChan := Suc (nextChan s)\<rparr>
         in (ch, s1\<lparr>closedChans := insert ch (closedChans s1)\<rparr>))
      else waitForData s waiter (position s))"

definition removeWaiter :: "'w segment \<Rightarrow> 'w \<Rightarrow> 'w segment" where
  "removeWaiter s waiter = s\<lparr>waiters := mapDelete waiter (waiters s)\<rparr>"

text \<open>\<open>Seal\<close>: \<open>Index.Shrink\<close> frees unused file space; its error is ignored.\<close>

definition Seal :: "'w segment \<Rightarrow> 'w segment result" where
  "Seal s = (if sealed s then Return s else notifyWaiters (s\<lparr>sealed := True\<rparr>))"

subsection \<open>Writing and reading\<close>

text \<open>
  \<open>write\<close> (here \<open>write_seg\<close>): \<open>wr\<close> is what \<open>s.writer.Write(p)\<close> returns, the number of bytes written and
  the error; those bytes have reached the file. \<open>entries[0]\<close> and
  \<open>entries[len(entries)-1]\<close> panic on an empty slice.
\<close>

definition write_seg ::
  "'w segment \<Rightarrow> byte list \<Rightarrow> entry list \<Rightarrow> nat \<times> error option
     \<Rightarrow> (nat \<times> error option \<times> 'w segment) result" where
  "write_seg s p entries wr =
     (if closed s then Return (0, Some ErrSegmentClosed, s)
      else
        (let n = fst wr; s1 = s\<lparr>logData := logData s @ take n p\<rparr> in
         case snd wr of
           Some err \<Rightarrow> Return (n, Some (Wrap ''log write failed'' err), s1)
         | None \<Rightarrow>
            (let s2 = s1\<lparr>position := position s1 + int n\<rparr> in
             if entries = [] then Panic ''index out of range''
             else
               (let s3 = (if firstWriteTime s2 = 0
                          then s2\<lparr>firstOffset := Offset (hd entries),
                                  firstWriteTime := Timestamp (hd entries)\<rparr>
                          else s2);
                    s4 = s3\<lparr>lastOffset := Offset (last entries),
                            lastWriteTime := Timestamp (last entries)\<rparr>
                in case notifyWaiters s4 of
                     Panic msg \<Rightarrow> Panic msg
                   | Return s5 \<Rightarrow> Return (n, None, s5)))))"

text \<open>
  Modelled from the spec: \<open>Index.writeEntries\<close> appends the entries to the index;
  \<open>iw\<close> is the error it returns.
\<close>

definition WriteMessageSet ::
  "'w segment \<Rightarrow> byte list \<Rightarrow> entry list \<Rightarrow> nat \<times> error option \<Rightarrow> error option
     \<Rightarrow> (error option \<times> 'w segment) result" where
  "WriteMessageSet s ms entries wr iw =
     (case write_seg s ms entries wr of
        Panic msg \<Rightarrow> Panic msg
      | Return (n, Some err, s1) \<Rightarrow> Return (Some err, s1)
      | Return (n, None, s1) \<Rightarrow>
         (case iw of
            Some err \<Rightarrow> Return (Some err, s1)
          | None \<Rightarrow> Return (None, s1\<lparr>Index := Index s1 @ entries\<rparr>)))"

text \<open>
  \<open>ReadAt\<close> reads \<open>len\<close> bytes (the length of the buffer) at \<open>off\<close>. \<open>os.File.ReadAt\<close>
  rejects a negative offset and returns \<open>io.EOF\<close> when fewer bytes are there; \<open>rd\<close> is
  any other failure of the read. The result is the bytes read and the error.
\<close>

definition fileReadAt :: "byte list \<Rightarrow> nat \<Rightarrow> int \<Rightarrow> error option \<Rightarrow> byte list \<times> error option" where
  "fileReadAt f len off rd =
     (if off < 0 then ([], Some (IOError ''negative offset''))
      else case rd of
        Some err \<Rightarrow> ([], Some err)
      | None \<Rightarrow>
         (let d = take len (drop (nat off) f)
          in (d, if length d < len then Some EOF else None)))"

definition ReadAt :: "'w segment \<Rightarrow> nat \<Rightarrow> int \<Rightarrow> error option \<Rightarrow> byte list \<times> error option" where
  "ReadAt s len off rd =
     (if closed s then
        (if replaced s then ([], Some ErrSegmentReplaced) else ([], Some ErrSegmentClosed))
      else fileReadAt (logData s) len off rd)"

subsection \<open>Close\<close>

text \<open>
  \<open>close\<close>: \<open>logClose\<close> and \<open>indexClose\<close> are the outcomes of \<open>s.log.Close()\<close> and
  \<open>s.Index.Close()\<close>. The result is the error returned (\<open>None\<close> is nil) and the segment.
\<close>

definition close :: "'w segment \<Rightarrow> error option \<Rightarrow> error option \<Rightarrow> error option \<times> 'w segment" where
  "close s logClose indexClose =
     (if closed s then (None, s)
      else case logClose of
        Some err \<Rightarrow> (Some err, s)
      | None \<Rightarrow>
         (case indexClose of
            Some err \<Rightarrow> (Some err, s)
          | None \<Rightarrow> (None, s\<lparr>closed := True\<rparr>)))"

definition Close :: "'w segment \<Rightarrow> error option \<Rightarrow> error option \<Rightarrow> error option \<times> 'w segment" where
  "Close s logClose indexClose = close s logClose indexClose"

subsection \<open>Replace\<close>

text \<open>
  The outcomes of the system calls of \<open>Replace\<close>, in the order the source makes them.
\<close>

record replace_io =
  oldLogClose :: "error option"
  oldIndexClose :: "error option"
  newLogClose :: "error option"
  newIndexClose :: "error option"
  renameLog :: "error option"
  renameIndex :: "error option"
  openLog :: "error option"
  readIndex :: "error + entry list"

text \<open>
  \<open>s.Replace(old)\<close> returns the error, the callee \<open>s\<close> and \<open>old\<close>. The renamed log file
  keeps its content, so reopening it leaves \<open>logData\<close> as it is.
\<close>

definition Replace ::
  "'w segment \<Rightarrow> 'w segment \<Rightarrow> replace_io \<Rightarrow> error option \<times> 'w segment \<times> 'w segment" where
  "Replace s old io =
     (case close old (oldLogClose io) (oldIndexClose io) of
        (Some err, old1) \<Rightarrow> (Some err, s, old1)
      | (None, old1) \<Rightarrow>
         (case close s (newLogClose io) (newIndexClose io) of
            (Some err, s1) \<Rightarrow> (Some err, s1, old1)
          | (None, s1) \<Rightarrow>
             (case renameLog io of
                Some err \<Rightarrow> (Some err, s1, old1)
              | None \<Rightarrow>
                 (case renameIndex io of
                    Some err \<Rightarrow> (Some err, s1, old1)
                  | None \<Rightarrow>
                     (let s2 = s1\<lparr>suffix := []\<rparr> in
                      case openLog io of
                        Some err \<Rightarrow> (Some (Wrap ''open file failed'' err), s2, old1)
                      | None \<Rightarrow>
                         (let s3 = s2\<lparr>closed := False\<rparr>;
                              old2 = old1\<lparr>replaced := True\<rparr>;
                              (err, s4) = setupIndex s3 (readIndex io)
                          in (err, s4, old2)))))))"


section \<open>Concrete segments and outcomes for the runs below\<close>

text \<open>
  The segment that \<open>newSegment\<close> returns for a new, empty log file with an empty index,
  base offset 0 and room for 100 bytes. The concrete runs below start from it.
\<close>

definition seg0 :: "nat segment" where
  "seg0 = \<lparr>logData = [], Index = [], BaseOffset = 0, firstOffset = -1,
            lastOffset = -1, firstWriteTime = 0, lastWriteTime = 0, position = 0,
            maxBytes = 100, path = ''/data'', suffix = [], waiters = [], sealed = False,
            closed = False, replaced = False, nextChan = 0, closedChans = {}\<rparr>"

text \<open>System calls that all succeed, the reopened index being empty.\<close>

definition io_ok :: replace_io where
  "io_ok = \<lparr>oldLogClose = None, oldIndexClose = None, newLogClose = None,
            newIndexClose = None, renameLog = None, renameIndex = None, openLog = None,
            readIndex = Inr []\<rparr>"

text \<open>
  \<open>reopened s old io\<close>: in \<open>s.Replace(old)\<close> both segments get closed (each is closed
  already or its two close calls succeed), both renames succeed and the log is reopened.
\<close>

definition reopened :: "'w segment \<Rightarrow> 'w segment \<Rightarrow> replace_io \<Rightarrow> bool" where
  "reopened s old io =
     ((closed old \<or> (oldLogClose io = None \<and> oldIndexClose io = None)) \<and>
      (closed s \<or> (newLogClose io = None \<and> newIndexClose io = None)) \<and>
      renameLog io = None \<and> renameIndex io = None \<and> openLog io = None)"

section \<open>Runs of segment operations\<close>

text \<open>
  The operations that touch the waiters of a segment, with the outcomes of their system
  calls, and a run of them on one segment. A panic ends the run.
\<close>

datatype 'w seg_op =
    OpWriteMessageSet "byte list" "entry list" "nat \<times> error option" "error option"
  | OpSeal
  | OpWaitForData 'w int
  | OpWaitForLEO 'w int
  | OpRemoveWaiter 'w

fun step :: "'w segment \<Rightarrow> 'w seg_op \<Rightarrow> 'w segment result" where
  "step s (OpWriteMessageSet ms es wr iw) =
     (case WriteMessageSet s ms es wr iw of
        Panic msg \<Rightarrow> Panic msg
      | Return (err, s1) \<Rightarrow> Return s1)"
| "step s OpSeal = Seal s"
| "step s (OpWaitForData w pos) = Return (snd (WaitForData s w pos))"
| "step s (OpWaitForLEO w leo) = Return (snd (WaitForLEO s w leo))"
| "step s (OpRemoveWaiter w) = Return (removeWaiter s w)"

fun run :: "'w segment \<Rightarrow> 'w seg_op list \<Rightarrow> 'w segment result" where
  "run s [] = Return s"
| "run s (x # xs) = (case step s x of Panic msg \<Rightarrow> Panic msg | Return s1 \<Rightarrow> run s1 xs)"

text \<open>
  The invariant of the waiters map: no waiter is registered twice, no channel is
  registered for two waiters, every registered channel has been allocated and is still
  open, and every closed channel has been allocated.
\<close>

definition waiters_ok :: "'w segment \<Rightarrow> bool" where
  "waiters_ok s =
     (distinct (map fst (waiters s)) \<and> distinct (map snd (waiters s)) \<and>
      (\<forall>ch \<in> snd ` set (waiters s). ch < nextChan s \<and> ch \<notin> closedChans s) \<and>
      (\<forall>ch \<in> closedChans s. ch < nextChan s))"

text \<open>
  Two index entries, and the segments reached from \<open>seg0\<close> by the runs used below.
  The first message set has timestamp 0.
\<close>

definition e0 :: entry where
  "e0 = \<lparr>Offset = 0, Timestamp = 0, Position = 0\<rparr>"

definition e1 :: entry where
  "e1 = \<lparr>Offset = 1, Timestamp = 5, Position = 2\<rparr>"

definition seg_first :: "nat segment" where
  "seg_first = seg0\<lparr>logData := [1, 2], Index := [e0], firstOffset := 0, lastOffset := 0,
                     position := 2\<rparr>"

definition seg_second :: "nat segment" where
  "seg_second = seg0\<lparr>logData := [1, 2, 3], Index := [e0, e1], firstOffset := 1,
                      lastOffset := 1, firstWriteTime := 5, lastWriteTime := 5, position := 3\<rparr>"

definition seg_waiting :: "nat segment" where
  "seg_waiting = seg_first\<lparr>waiters := [(7, 0)], nextChan := 1\<rparr>"

section \<open>Calls that run at the same time on one segment\<close>

text \<open>
  \<open>WaitForData\<close>, \<open>WaitForLEO\<close> and \<open>WriteMessageSet\<close> take the segment's write lock
  (\<open>s.Lock()\<close>) before they touch the segment and release it (\<open>s.Unlock()\<close>) when they
  are done. To say what the lock is for, a call by a waiting reader and a call of
  \<open>WriteMessageSet\<close> are run here as two goroutines, statement by statement, in any
  interleaving. The lock is either free or held; \<open>Lock\<close> by a goroutine waits while it
  is held, and \<open>Unlock\<close> of a lock that is not held is a fatal error of the Go runtime.

  The reader's call, and where it stands: before \<open>s.Lock()\<close>, before the test of
  \<open>s.lastOffset\<close> (\<open>WaitForLEO\<close> only), before the lookup in \<open>s.waiters\<close> (with the
  target position), before the test of \<open>s.position\<close> (with the channel just made),
  before \<open>close(wait)\<close>, before \<open>s.waiters[waiter] = wait\<close>, before \<open>s.Unlock()\<close>, and
  returned with its channel.
\<close>

datatype goroutine = Reader | Writer

datatype 'w wait_call = CallWaitForData 'w int | CallWaitForLEO 'w int

fun waiter_of :: "'w wait_call \<Rightarrow> 'w" where
  "waiter_of (CallWaitForData w pos) = w"
| "waiter_of (CallWaitForLEO w leo) = w"

datatype reader_at =
    W_Lock
  | W_LastOffset
  | W_Lookup int
  | W_Position chan int
  | W_Close chan
  | W_Register chan
  | W_Unlock chan
  | W_Returned chan

text \<open>
  Where the call of \<open>WriteMessageSet\<close> stands: before \<open>s.Lock()\<close>, before the write to
  the log file (with the test of \<open>s.closed\<close> and the update of \<open>s.position\<close>), before
  the update of the first and last offsets and times, before \<open>s.notifyWaiters()\<close>, before
  \<open>s.Index.writeEntries\<close>, before the deferred \<open>s.Unlock()\<close>, and returned with its
  error.
\<close>

datatype writer_at =
    R_Lock
  | R_Write
  | R_Offsets
  | R_Notify
  | R_Index
  | R_Unlock "error option"
  | R_Returned "error option"

record 'w conc =
  c_seg :: "'w segment"
  c_locked :: bool
  c_reader :: reader_at
  c_writer :: writer_at

text \<open>One statement of the reader's call. A goroutine that waits or has returned stays put.\<close>

definition reader_step :: "'w wait_call \<Rightarrow> 'w conc \<Rightarrow> 'w conc result" where
  "reader_step call c =
     (let s = c_seg c in
      case c_reader c of
        W_Lock \<Rightarrow>
          (if c_locked c then Return c
           else Return (c\<lparr>c_locked := True,
                          c_reader := (case call of
                                         CallWaitForData w pos \<Rightarrow> W_Lookup pos
                                       | CallWaitForLEO w leo \<Rightarrow> W_LastOffset)\<rparr>))
      | W_LastOffset \<Rightarrow>
          (case call of
             CallWaitForData w pos \<Rightarrow> Return (c\<lparr>c_reader := W_Lookup pos\<rparr>)
           | CallWaitForLEO w leo \<Rightarrow>
               (if lastOffset s \<noteq> leo
                then Return (c\<lparr>c_seg := s\<lparr>nextChan := Suc (nextChan s)\<rparr>,
                               c_reader := W_Close (nextChan s)\<rparr>)
                else Return (c\<lparr>c_reader := W_Lookup (position s)\<rparr>)))
      | W_Lookup pos \<Rightarrow>
          (case map_of (waiters s) (waiter_of call) of
             Some wait \<Rightarrow> Return (c\<lparr>c_reader := W_Unlock wait\<rparr>)
           | None \<Rightarrow> Return (c\<lparr>c_seg := s\<lparr>nextChan := Suc (nextChan s)\<rparr>,
                                c_reader := W_Position (nextChan s) pos\<rparr>))
      | W_Position wait pos \<Rightarrow>
          (if position s > pos \<or> position s \<ge> maxBytes s
           then Return (c\<lparr>c_reader := W_Close wait\<rparr>)
           else Return (c\<lparr>c_reader := W_Register wait\<rparr>))
      | W_Close wait \<Rightarrow>
          (if wait \<in> closedChans s then Panic ''close of closed channel''
           else Return (c\<lparr>c_seg := s\<lparr>closedChans := insert wait (closedChans s)\<rparr>,
                          c_reader := W_Unlock wait\<rparr>))
      | W_Register wait \<Rightarrow>
          Return (c\<lparr>c_seg := s\<lparr>waiters := mapSet (waiter_of call) wait (waiters s)\<rparr>,
                    c_reader := W_Unlock wait\<rparr>)
      | W_Unlock wait \<Rightarrow>
          (if c_locked c then Return (c\<lparr>c_locked := False, c_reader := W_Returned wait\<rparr>)
           else Panic ''sync: Unlock of unlocked RWMutex'')
      | W_Returned wait \<Rightarrow> Return c)"

text \<open>
  One statement of \<open>WriteMessageSet(ms, entries)\<close>, with the outcomes \<open>wres\<close> of the
  write to the log file and \<open>ires\<close> of the write to the index.
\<close>

definition writer_step ::
  "byte list \<Rightarrow> entry list \<Rightarrow> nat \<times> error option \<Rightarrow> error option \<Rightarrow> 'w conc
     \<Rightarrow> 'w conc result" where
  "writer_step bytes es wres ires c =
     (let s = c_seg c in
      case c_writer c of
        R_Lock \<Rightarrow>
          (if c_locked c then Return c
           else Return (c\<lparr>c_locked := True, c_writer := R_Write\<rparr>))
      | R_Write \<Rightarrow>
          (if closed s then Return (c\<lparr>c_writer := R_Unlock (Some ErrSegmentClosed)\<rparr>)
           else
             (let s1 = s\<lparr>logData := logData s @ take (fst wres) bytes\<rparr> in
              case snd wres of
                Some err \<Rightarrow>
                  Return (c\<lparr>c_seg := s1,
                            c_writer := R_Unlock (Some (Wrap ''log write failed'' err))\<rparr>)
              | None \<Rightarrow>
                  Return (c\<lparr>c_seg := s1\<lparr>position := position s1 + int (fst wres)\<rparr>,
                            c_writer := R_Offsets\<rparr>)))
      | R_Offsets \<Rightarrow>
          (if es = [] then Panic ''index out of range''
           else
             (let s3 = (if firstWriteTime s = 0
                        then s\<lparr>firstOffset := Offset (hd es),
                               firstWriteTime := Timestamp (hd es)\<rparr>
                        else s)
              in Return (c\<lparr>c_seg := s3\<lparr>lastOffset := Offset (last es),
                                         lastWriteTime := Timestamp (last es)\<rparr>,
                           c_writer := R_Notify\<rparr>)))
      | R_Notify \<Rightarrow>
          (case notifyWaiters s of
             Panic msg \<Rightarrow> Panic msg
           | Return s5 \<Rightarrow> Return (c\<lparr>c_seg := s5, c_writer := R_Index\<rparr>))
      | R_Index \<Rightarrow>
          (case ires of
             Some err \<Rightarrow> Return (c\<lparr>c_writer := R_Unlock (Some err)\<rparr>)
           | None \<Rightarrow> Return (c\<lparr>c_seg := s\<lparr>Index := Index s @ es\<rparr>,
                                c_writer := R_Unlock None\<rparr>))
      | R_Unlock err \<Rightarrow>
          (if c_locked c then Return (c\<lparr>c_locked := False, c_writer := R_Returned err\<rparr>)
           else Panic ''sync: Unlock of unlocked RWMutex'')
      | R_Returned err \<Rightarrow> Return c)"

text \<open>A schedule says which goroutine makes the next step.\<close>

fun exec ::
  "'w wait_call \<Rightarrow> byte list \<Rightarrow> entry list \<Rightarrow> nat \<times> error option \<Rightarrow> error option
     \<Rightarrow> goroutine list \<Rightarrow> 'w conc \<Rightarrow> 'w conc result" where
  "exec call bytes es wres ires [] c = Return c"
| "exec call bytes es wres ires (g # gs) c =
     (case (case g of Reader \<Rightarrow> reader_step call c
                    | Writer \<Rightarrow> writer_step bytes es wres ires c) of
        Panic msg \<Rightarrow> Panic msg
      | Return c1 \<Rightarrow> exec call bytes es wres ires gs c1)"

text \<open>Both calls about to start on segment \<open>s\<close>, the lock being free.\<close>

definition both_start :: "'w segment \<Rightarrow> 'w conc" where
  "both_start s = \<lparr>c_seg = s, c_locked = False, c_reader = W_Lock, c_writer = R_Lock\<rparr>"

text \<open>The statements of the two calls that run between \<open>Lock\<close> and \<open>Unlock\<close>.\<close>

fun reader_inside :: "reader_at \<Rightarrow> bool" where
  "reader_inside W_Lock = False"
| "reader_inside (W_Returned ch) = False"
| "reader_inside other = True"

fun writer_inside :: "writer_at \<Rightarrow> bool" where
  "writer_inside R_Lock = False"
| "writer_inside (R_Returned err) = False"
| "writer_inside other = True"

text \<open>What the reader's call returns when nothing else runs: the sequential method.\<close>

fun wait_result :: "'w wait_call \<Rightarrow> 'w segment \<Rightarrow> chan \<times> 'w segment" where
  "wait_result (CallWaitForData w pos) s = WaitForData s w pos"
| "wait_result (CallWaitForLEO w leo) s = WaitForLEO s w leo"

text \<open>
  The invariant of the two calls, for a successful write of at least one byte to an open
  segment: the lock is held exactly while one of the calls is between \<open>Lock\<close> and
  \<open>Unlock\<close>, and never by both; a channel the reader has made and not yet closed or
  registered is new; the reader registers only while the write has not happened; a target
  position the reader holds is not past the position of the segment, and is below it once
  the write has happened; and the channel the reader is about to return is closed or
  registered, and closed once the writer has notified the waiters.
\<close>

definition fresh_chan :: "chan \<Rightarrow> 'w segment \<Rightarrow> bool" where
  "fresh_chan ch s = (ch < nextChan s \<and> ch \<notin> closedChans s \<and> ch \<notin> snd ` set (waiters s))"

fun before_write :: "writer_at \<Rightarrow> bool" where
  "before_write R_Lock = True"
| "before_write R_Write = True"
| "before_write other = False"

fun after_offsets :: "writer_at \<Rightarrow> bool" where
  "after_offsets R_Lock = False"
| "after_offsets R_Write = False"
| "after_offsets R_Offsets = False"
| "after_offsets other = True"

fun after_notify :: "writer_at \<Rightarrow> bool" where
  "after_notify R_Index = True"
| "after_notify (R_Unlock err) = True"
| "after_notify (R_Returned err) = True"
| "after_notify other = False"

fun reader_ok :: "'w segment \<Rightarrow> writer_at \<Rightarrow> reader_at \<Rightarrow> bool" where
  "reader_ok s wa W_Lock = True"
| "reader_ok s wa W_LastOffset = True"
| "reader_ok s wa (W_Lookup p) = (p \<le> position s \<and> (before_write wa \<or> p < position s))"
| "reader_ok s wa (W_Position ch p) =
     (fresh_chan ch s \<and> p \<le> position s \<and> (before_write wa \<or> p < position s))"
| "reader_ok s wa (W_Close ch) = fresh_chan ch s"
| "reader_ok s wa (W_Register ch) = (fresh_chan ch s \<and> before_write wa)"
| "reader_ok s wa (W_Unlock ch) = (ch \<in> closedChans s \<or> ch \<in> snd ` set (waiters s))"
| "reader_ok s wa (W_Returned ch) = (ch \<in> closedChans s \<or> ch \<in> snd ` set (waiters s))"

fun call_ok :: "'w wait_call \<Rightarrow> entry list \<Rightarrow> 'w segment \<Rightarrow> writer_at \<Rightarrow> bool" where
  "call_ok (CallWaitForData w pos) es s wa =
     (pos \<le> position s \<and> (before_write wa \<or> pos < position s))"
| "call_ok (CallWaitForLEO w leo) es s wa = (Offset (last es) \<noteq> leo)"

definition race_inv :: "'w wait_call \<Rightarrow> entry list \<Rightarrow> 'w conc \<Rightarrow> bool" where
  "race_inv call es c =
     (waiters_ok (c_seg c) \<and> \<not> closed (c_seg c) \<and>
      (c_locked c = (reader_inside (c_reader c) \<or> writer_inside (c_writer c))) \<and>
      \<not> (reader_inside (c_reader c) \<and> writer_inside (c_writer c)) \<and>
      (after_notify (c_writer c) \<longrightarrow> waiters (c_seg c) = []) \<and>
      (after_offsets (c_writer c) \<longrightarrow> lastOffset (c_seg c) = Offset (last es)) \<and>
      call_ok call es (c_seg c) (c_writer c) \<and>
      reader_ok (c_seg c) (c_writer c) (c_reader c))"

section \<open>The metadata state machine (server/fsm.go)\<close>

text \<open>
  Of the errors above, \<open>ErrPartitionExists\<close>, \<open>ErrStreamNotFound\<close> and
  \<open>ErrPartitionNotFound\<close> are the server's sentinels; \<open>ErrNoSuchPartition stream id\<close>
  is the value of \<open>fmt.Errorf("No such partition [stream=%s, partition=%d]", ...)\<close> and
  \<open>ErrUnknownOp\<close> that of \<open>fmt.Errorf("Unknown Raft operation: %s", ...)\<close>;
  \<open>ErrSyntax\<close> and \<open>ErrRange\<close> are the errors of \<open>strconv.ParseUint\<close>.
\<close>

subsection \<open>Partitions\<close>

text \<open>
  The protobuf message \<open>proto.Partition\<close> with the attributes the spec lists: the
  partition's stream and id, its replicas, leader and ISR, the two epochs (uint64) and the
  paused flag. The id (\<open>Id\<close>, here \<open>Id_p\<close>) is an int32, used only as a key.
\<close>

record proto_Partition =
  Stream :: string
  Id_p :: "32 word"
  Replicas :: "string list"
  Leader :: string
  Isr :: "string list"
  LeaderEpoch :: "64 word"
  Epoch :: "64 word"
  Paused :: bool

text \<open>
  Modelled from the spec: the server's partition (partition.go is not among the sources)
  is the protobuf message together with its role on this node. A partition added during
  recovery is not started until \<open>StartRecovered\<close> is called; \<open>recovered\<close> marks such a
  partition and \<open>started\<close> says whether it has taken up its role as leader or follower.
\<close>

record partition =
  Partition :: proto_Partition
  recovered :: bool
  started :: bool

definition GetEpoch :: "partition \<Rightarrow> 64 word" where
  "GetEpoch p = Epoch (Partition p)"

definition SetEpoch :: "partition \<Rightarrow> 64 word \<Rightarrow> partition" where
  "SetEpoch p e = p\<lparr>Partition := (Partition p)\<lparr>Epoch := e\<rparr>\<rparr>"

text \<open>
  Modelled from the spec: \<open>RemoveFromISR\<close> and \<open>AddToISR\<close> change the ISR and fail if
  the replica is unknown, that is, not one of the partition's replicas.
\<close>

definition RemoveFromISR :: "partition \<Rightarrow> string \<Rightarrow> error + partition" where
  "RemoveFromISR p replica =
     (if replica \<notin> set (Replicas (Partition p)) then Inl (ErrNotReplica replica)
      else Inr (p\<lparr>Partition := (Partition p)\<lparr>Isr := removeAll replica (Isr (Partition p))\<rparr>\<rparr>))"

definition AddToISR :: "partition \<Rightarrow> string \<Rightarrow> error + partition" where
  "AddToISR p replica =
     (if replica \<notin> set (Replicas (Partition p)) then Inl (ErrNotReplica replica)
      else Inr (p\<lparr>Partition := (Partition p)\<lparr>Isr := List.insert replica (Isr (Partition p))\<rparr>\<rparr>))"

text \<open>
  Modelled from the spec: \<open>SetLeader\<close> updates the leader and the leader epoch; the spec
  names no failure. Taking up leadership or following is outside the metadata.
\<close>

definition SetLeader :: "partition \<Rightarrow> string \<Rightarrow> 64 word \<Rightarrow> error + partition" where
  "SetLeader p ldr e = Inr (p\<lparr>Partition := (Partition p)\<lparr>Leader := ldr, LeaderEpoch := e\<rparr>\<rparr>)"

text \<open>
  Modelled from the spec: \<open>StartRecovered\<close> starts a partition that was added during
  recovery and says whether it did; it is idempotent.
\<close>

definition StartRecovered :: "partition \<Rightarrow> (bool \<times> error option) \<times> partition" where
  "StartRecovered p =
     (if recovered p then ((True, None), p\<lparr>recovered := False, started := True\<rparr>)
      else ((False, None), p))"

subsection \<open>The metadata store\<close>

text \<open>
  Modelled from the spec: the metadata store (metadata.go is not among the sources) is an
  in-memory map from stream names to streams, and a stream owns its partitions keyed by
  id. Both maps are association lists, whose order stands for the iteration order of the
  Go maps. A stream is created for its first partition.
\<close>

record stream =
  name :: string
  partitions :: "(32 word \<times> partition) list"

type_synonym metadata = "(string \<times> stream) list"

definition GetStreams :: "metadata \<Rightarrow> stream list" where
  "GetStreams md = map snd md"

definition GetPartitions :: "stream \<Rightarrow> partition list" where
  "GetPartitions st = map snd (partitions st)"

definition GetStream :: "metadata \<Rightarrow> string \<Rightarrow> stream option" where
  "GetStream md nm = map_of md nm"

definition GetPartition :: "metadata \<Rightarrow> string \<Rightarrow> 32 word \<Rightarrow> partition option" where
  "GetPartition md nm i =
     (case map_of md nm of None \<Rightarrow> None | Some st \<Rightarrow> map_of (partitions st) i)"

text \<open>Writing a partition back: the Go code mutates the partition through its pointer.\<close>

definition putPartition :: "metadata \<Rightarrow> string \<Rightarrow> 32 word \<Rightarrow> partition \<Rightarrow> metadata" where
  "putPartition md nm i p =
     map (\<lambda>(k, st). if k = nm
            then (k, st\<lparr>partitions := map (\<lambda>(j, q). if j = i then (j, p) else (j, q))
                                          (partitions st)\<rparr>)
            else (k, st)) md"

text \<open>
  Modelled from the spec: \<open>AddPartition(spec, recovered)\<close> returns the partition or
  \<open>ErrPartitionExists\<close>; with \<open>recovered\<close> it creates the partition and does not
  start it.
\<close>

definition AddPartition :: "metadata \<Rightarrow> proto_Partition \<Rightarrow> bool \<Rightarrow> error + partition \<times> metadata" where
  "AddPartition md pp rec =
     (let p = \<lparr>Partition = pp, recovered = rec, started = \<not> rec\<rparr> in
      case map_of md (Stream pp) of
        None \<Rightarrow> Inr (p, md @ [(Stream pp, \<lparr>name = Stream pp, partitions = [(Id_p pp, p)]\<rparr>)])
      | Some st \<Rightarrow>
         (case map_of (partitions st) (Id_p pp) of
            Some q \<Rightarrow> Inl ErrPartitionExists
          | None \<Rightarrow>
             Inr (p, map (\<lambda>(k, s). if k = Stream pp
                          then (k, s\<lparr>partitions := partitions s @ [(Id_p pp, p)]\<rparr>)
                          else (k, s)) md)))"

text \<open>Modelled from the spec: \<open>Reset\<close> drops every stream.\<close>

definition Reset :: "metadata \<Rightarrow> error option \<times> metadata" where
  "Reset md = (None, [])"

text \<open>Modelled from the spec: \<open>CloseAndDeleteStream\<close> removes the stream.\<close>

definition CloseAndDeleteStream :: "metadata \<Rightarrow> stream \<Rightarrow> error option \<times> metadata" where
  "CloseAndDeleteStream md st = (None, mapDelete (name st) md)"

text \<open>
  Modelled from the spec: \<open>Pause\<close> sets the paused flag of the partitions named, of all
  partitions when none is named, and returns \<open>ErrPartitionNotFound\<close> when a partition
  named is not in the stream.
\<close>

definition Pause :: "stream \<Rightarrow> 32 word list \<Rightarrow> bool \<Rightarrow> error + stream" where
  "Pause st ids resumeAll =
     (if \<exists>i \<in> set ids. map_of (partitions st) i = None then Inl ErrPartitionNotFound
      else Inr (st\<lparr>partitions :=
                  map (\<lambda>(j, q). if ids = [] \<or> j \<in> set ids
                                then (j, q\<lparr>Partition := (Partition q)\<lparr>Paused := True\<rparr>\<rparr>)
                                else (j, q)) (partitions st)\<rparr>))"

subsection \<open>Applying operations to the metadata\<close>

text \<open>
  The \<open>apply...\<close> methods of the server read and change only \<open>s.metadata\<close> (and write
  log lines): they take the metadata store and return the error and the store. The
  messages of the wrapped errors are shortened to their constant part.
\<close>

definition applyCreatePartition :: "metadata \<Rightarrow> proto_Partition \<Rightarrow> bool \<Rightarrow> error option \<times> metadata" where
  "applyCreatePartition md protoPartition rec =
     (case AddPartition md protoPartition rec of
        Inl err \<Rightarrow>
          (if err = ErrPartitionExists then (Some err, md)
           else (Some (Wrap ''failed to add partition to metadata store'' err), md))
      | Inr (p, md1) \<Rightarrow> (None, md1))"

definition applyShrinkISR ::
  "metadata \<Rightarrow> string \<Rightarrow> string \<Rightarrow> 32 word \<Rightarrow> 64 word \<Rightarrow> error option \<times> metadata" where
  "applyShrinkISR md strm replica partitionID epoch =
     (case GetPartition md strm partitionID of
        None \<Rightarrow> (Some (ErrNoSuchPartition strm partitionID), md)
      | Some p \<Rightarrow>
         (if GetEpoch p \<ge> epoch then (None, md)
          else case RemoveFromISR p replica of
            Inl err \<Rightarrow> (Some (Wrap ''failed to remove replica from ISR'' err), md)
          | Inr p1 \<Rightarrow> (None, putPartition md strm partitionID (SetEpoch p1 epoch))))"

definition applyExpandISR ::
  "metadata \<Rightarrow> string \<Rightarrow> string \<Rightarrow> 32 word \<Rightarrow> 64 word \<Rightarrow> error option \<times> metadata" where
  "applyExpandISR md strm replica partitionID epoch =
     (case GetPartition md strm partitionID of
        None \<Rightarrow> (Some (ErrNoSuchPartition strm partitionID), md)
      | Some p \<Rightarrow>
         (if GetEpoch p \<ge> epoch then (None, md)
          else case AddToISR p replica of
            Inl err \<Rightarrow> (Some (Wrap ''failed to add replica to ISR'' err), md)
          | Inr p1 \<Rightarrow> (None, putPartition md strm partitionID (SetEpoch p1 epoch))))"

definition applyChangeStreamLeader ::
  "metadata \<Rightarrow> string \<Rightarrow> string \<Rightarrow> 32 word \<Rightarrow> 64 word \<Rightarrow> error option \<times> metadata" where
  "applyChangeStreamLeader md strm ldr partitionID epoch =
     (case GetPartition md strm partitionID of
        None \<Rightarrow> (Some (ErrNoSuchPartition strm partitionID), md)
      | Some p \<Rightarrow>
         (if GetEpoch p \<ge> epoch then (None, md)
          else case SetLeader p ldr epoch of
            Inl err \<Rightarrow> (Some (Wrap ''failed to change partition leader'' err), md)
          | Inr p1 \<Rightarrow> (None, putPartition md strm partitionID (SetEpoch p1 epoch))))"

definition applyDeleteStream :: "metadata \<Rightarrow> string \<Rightarrow> error option \<times> metadata" where
  "applyDeleteStream md streamName =
     (case GetStream md streamName of
        None \<Rightarrow> (Some ErrStreamNotFound, md)
      | Some st \<Rightarrow>
         (case CloseAndDeleteStream md st of
            (Some err, md1) \<Rightarrow> (Some (Wrap ''failed to delete stream'' err), md1)
          | (None, md1) \<Rightarrow> (None, md1)))"

definition applyPauseStream ::
  "metadata \<Rightarrow> string \<Rightarrow> 32 word list \<Rightarrow> bool \<Rightarrow> error option \<times> metadata" where
  "applyPauseStream md streamName ids resumeAll =
     (case GetStream md streamName of
        None \<Rightarrow> (Some ErrStreamNotFound, md)
      | Some st \<Rightarrow>
         (case Pause st ids resumeAll of
            Inl err \<Rightarrow>
              (if err = ErrPartitionNotFound then (Some err, md)
               else (Some (Wrap ''failed to pause stream'' err), md))
          | Inr st1 \<Rightarrow>
              (None, map (\<lambda>(k, s). if k = streamName then (k, st1) else (k, s)) md)))"

text \<open>
  The operation of a consensus log entry, \<open>proto.RaftLog\<close>: a tagged union with one arm
  per operation the switch of \<open>apply\<close> knows, and \<open>OtherOp\<close> for any other operation
  code. The arguments are in the order in which \<open>apply\<close> passes them on.
\<close>

datatype RaftLog =
    CreatePartitionOp proto_Partition
  | ShrinkISROp string string "32 word"
  | ChangeLeaderOp string string "32 word"
  | ExpandISROp string string "32 word"
  | DeleteStreamOp string
  | PauseStreamOp string "32 word list" bool
  | OtherOp string

text \<open>
  \<open>apply\<close> (here \<open>apply_log\<close>) returns \<open>(value, err)\<close>: \<open>Inl err\<close> is \<open>(nil, err)\<close> and
  \<open>Inr value\<close> is \<open>(value, nil)\<close>, where the value is nil or a sentinel error.
\<close>

fun apply_log ::
  "metadata \<Rightarrow> RaftLog \<Rightarrow> 64 word \<Rightarrow> bool \<Rightarrow> (error + error option) \<times> metadata" where
  "apply_log md (CreatePartitionOp pp) index rec =
     (let partition = pp\<lparr>LeaderEpoch := index, Epoch := index\<rparr> in
      case applyCreatePartition md partition rec of
        (Some err, md1) \<Rightarrow>
          (if err = ErrPartitionExists then (Inr (Some err), md1) else (Inl err, md1))
      | (None, md1) \<Rightarrow> (Inr None, md1))"
| "apply_log md (ShrinkISROp strm replica partitionID) index rec =
     (case applyShrinkISR md strm replica partitionID index of
        (Some err, md1) \<Rightarrow> (Inl err, md1)
      | (None, md1) \<Rightarrow> (Inr None, md1))"
| "apply_log md (ChangeLeaderOp strm ldr partitionID) index rec =
     (case applyChangeStreamLeader md strm ldr partitionID index of
        (Some err, md1) \<Rightarrow> (Inl err, md1)
      | (None, md1) \<Rightarrow> (Inr None, md1))"
| "apply_log md (ExpandISROp strm replica partitionID) index rec =
     (case applyExpandISR md strm replica partitionID index of
        (Some err, md1) \<Rightarrow> (Inl err, md1)
      | (None, md1) \<Rightarrow> (Inr None, md1))"
| "apply_log md (DeleteStreamOp strm) index rec =
     (case applyDeleteStream md strm of
        (Some err, md1) \<Rightarrow>
          (if err = ErrStreamNotFound then (Inr (Some err), md1) else (Inl err, md1))
      | (None, md1) \<Rightarrow> (Inr None, md1))"
| "apply_log md (PauseStreamOp strm ids resumeAll) index rec =
     (case applyPauseStream md strm ids resumeAll of
        (Some err, md1) \<Rightarrow>
          (if err = ErrStreamNotFound \<or> err = ErrPartitionNotFound then (Inr (Some err), md1)
           else (Inl err, md1))
      | (None, md1) \<Rightarrow> (Inr None, md1))"
| "apply_log md (OtherOp opname) index rec = (Inl (ErrUnknownOp opname), md)"

subsection \<open>The consensus log and the server\<close>

text \<open>
  What the state machine sees of the consensus library: a log entry with its index, its
  type and its data (given as the outcome of \<open>Unmarshal\<close> on the data), and the node
  with its \<open>commit_index\<close> statistic (a string), the first index of its log store and
  the log store's \<open>GetLog\<close>.
\<close>

datatype LogType = LogCommand | LogNoop | LogAddPeerDeprecated | LogRemovePeerDeprecated
  | LogBarrier | LogConfiguration

record raft_log =
  Index_log :: "64 word"
  Type_log :: LogType
  Data_log :: "error + RaftLog"

record raft_node =
  commit_index :: string
  FirstIndex :: "error + 64 word"
  GetLog :: "64 word \<Rightarrow> error + raft_log"

text \<open>
  \<open>strconv.ParseUint(s, 10, 64)\<close>: a non-empty string of decimal digits whose value
  fits 64 bits.
\<close>

definition ParseUint :: "string \<Rightarrow> error + 64 word" where
  "ParseUint s =
     (if s = [] \<or> (\<exists>c \<in> set s. \<not> (48 \<le> (of_char c :: nat) \<and> (of_char c :: nat) \<le> 57))
      then Inl (ErrSyntax s)
      else
        (let n = foldl (\<lambda>a c. 10 * a + ((of_char c :: nat) - 48)) 0 s in
         if n \<ge> 2 ^ 64 then Inl (ErrRange s) else Inr (of_nat n)))"

datatype writer = Output string | Discard

text \<open>
  The fields of the server that the state machine uses. \<open>finishedRecoveries\<close> is a
  history variable: the number of calls of \<open>finishedRecovery\<close> so far.
\<close>

record server =
  metadata :: metadata
  recoveryStarted :: bool
  latestRecoveredLog :: "raft_log option"
  shutdown :: bool
  LogRecovery :: bool
  loggerWriter :: writer
  loggerOut :: writer
  raft :: raft_node
  finishedRecoveries :: nat

text \<open>
  The loop of \<open>recoverLatestCommittedFSMLog\<close>, from \<open>i\<close> down to \<open>firstIndex\<close>. The
  function returns before the loop when \<open>firstIndex\<close> is 0, so the loop runs with
  \<open>firstIndex \<noteq> 0\<close> only and \<open>i--\<close> never wraps around; the first test below carries
  that fact.
\<close>

function scanLog :: "raft_node \<Rightarrow> 64 word \<Rightarrow> 64 word \<Rightarrow> 64 word \<Rightarrow> 64 word \<Rightarrow> error + raft_log option" where
  "scanLog rn applyIndex commitIndex firstIndex i =
     (if firstIndex \<noteq> 0 \<and> i \<ge> firstIndex then
        (if i = applyIndex \<and> applyIndex = commitIndex then Inr None
         else case GetLog rn i of
           Inl err \<Rightarrow> Inl err
         | Inr log \<Rightarrow>
            (if Type_log log = LogCommand then Inr (Some log)
             else scanLog rn applyIndex commitIndex firstIndex (i - 1)))
      else Inr None)"
  by pat_completeness auto
termination
proof (relation "measure (\<lambda>(rn, applyIndex, commitIndex, firstIndex, i). unat i)")
  show "wf (measure (\<lambda>(rn, applyIndex, commitIndex, firstIndex, i). unat i))"
    by simp
next
  fix rn :: raft_node and applyIndex commitIndex firstIndex i :: "64 word"
  assume "firstIndex \<noteq> 0 \<and> firstIndex \<le> i"
  then have "i \<noteq> 0"
    by (auto simp: word_le_nat_alt unat_eq_0)
  then have "unat (i - 1) < unat i"
    by (simp add: unat_minus_one unat_gt_0)
  then show "((rn, applyIndex, commitIndex, firstIndex, i - 1), (rn, applyIndex, commitIndex, firstIndex, i))
               \<in> measure (\<lambda>(rn, applyIndex, commitIndex, firstIndex, i). unat i)"
    by simp
qed

definition recoverLatestCommittedFSMLog :: "server \<Rightarrow> 64 word \<Rightarrow> error + raft_log option" where
  "recoverLatestCommittedFSMLog s applyIndex =
     (let raftNode = raft s in
      case ParseUint (commit_index raftNode) of
        Inl err \<Rightarrow> Inl err
      | Inr commitIndex \<Rightarrow>
         (case FirstIndex raftNode of
            Inl err \<Rightarrow> Inl err
          | Inr firstIndex \<Rightarrow>
             (if firstIndex = 0 then Inr None
              else scanLog raftNode applyIndex commitIndex firstIndex commitIndex)))"

definition startedRecovery :: "server \<Rightarrow> server" where
  "startedRecovery s =
     (if LogRecovery s then s
      else s\<lparr>loggerOut := loggerWriter s, loggerWriter := Discard\<rparr>)"

text \<open>
  \<open>finishedRecovery\<close>: the inner loop over the partitions of a stream returns whether one
  of them was recovered, the outer loop the names of the streams with such a partition.
\<close>

fun startPartitions ::
  "(32 word \<times> partition) list \<Rightarrow> (bool \<times> error option) \<times> (32 word \<times> partition) list" where
  "startPartitions [] = ((False, None), [])"
| "startPartitions ((i, p) # ps) =
     (case StartRecovered p of
        ((r, Some err), p1) \<Rightarrow> ((False, Some err), (i, p1) # ps)
      | ((r, None), p1) \<Rightarrow>
         (case startPartitions ps of
            ((r1, err), ps1) \<Rightarrow> ((r \<or> r1, err), (i, p1) # ps1)))"

fun startStreams :: "metadata \<Rightarrow> (string list \<times> error option) \<times> metadata" where
  "startStreams [] = (([], None), [])"
| "startStreams ((k, st) # md) =
     (case startPartitions (partitions st) of
        ((r, Some err), ps1) \<Rightarrow> (([], Some err), (k, st\<lparr>partitions := ps1\<rparr>) # md)
      | ((r, None), ps1) \<Rightarrow>
         (case startStreams md of
            ((names, err), md1) \<Rightarrow>
              (((if r then [name st] else []) @ names, err), (k, st\<lparr>partitions := ps1\<rparr>) # md1)))"

definition finishedRecovery :: "server \<Rightarrow> (nat \<times> error option) \<times> server" where
  "finishedRecovery s =
     (let s1 = (if \<not> LogRecovery s then s\<lparr>loggerWriter := loggerOut s\<rparr> else s);
          s2 = s1\<lparr>finishedRecoveries := Suc (finishedRecoveries s1)\<rparr>
      in case startStreams (metadata s2) of
           ((names, Some err), md1) \<Rightarrow> ((0, Some err), s2\<lparr>metadata := md1\<rparr>)
         | ((names, None), md1) \<Rightarrow> ((length (remdups names), None), s2\<lparr>metadata := md1\<rparr>))"

subsection \<open>Apply\<close>

text \<open>
  What a call of \<open>Apply\<close> does: it panics, or returns a value (nil or an error value).
\<close>

datatype apply_result = Panicked error | Returned "error option"

text \<open>
  The first block of \<open>Apply\<close>: on the first call it looks for the latest committed log
  entry and records it.
\<close>

definition establishBarrier :: "server \<Rightarrow> raft_log \<Rightarrow> error + server" where
  "establishBarrier s l =
     (if \<not> recoveryStarted s then
        (case recoverLatestCommittedFSMLog s (Index_log l) of
           Inl err \<Rightarrow> Inl err
         | Inr lastCommittedLog \<Rightarrow>
            (let s1 = s\<lparr>latestRecoveredLog := lastCommittedLog, recoveryStarted := True\<rparr> in
             if latestRecoveredLog s1 \<noteq> None then Inr (startedRecovery s1) else Inr s1))
      else Inr s)"

text \<open>
  The second block: whether the entry is a recovered one, and whether it is the latest
  recovered entry, in which case \<open>finishedRecovery\<close> is deferred.
\<close>

definition isRecovered :: "server \<Rightarrow> raft_log \<Rightarrow> bool" where
  "isRecovered s l =
     (case latestRecoveredLog s of
        None \<Rightarrow> False
      | Some lr \<Rightarrow> Index_log l \<le> Index_log lr)"

definition isLastRecovered :: "server \<Rightarrow> raft_log \<Rightarrow> bool" where
  "isLastRecovered s l =
     (case latestRecoveredLog s of
        None \<Rightarrow> False
      | Some lr \<Rightarrow> Index_log l \<le> Index_log lr \<and> Index_log l = Index_log lr)"

text \<open>
  The rest of the body: unmarshal the data and apply the operation. An error of
  \<open>apply\<close> is returned when the server is shutting down and is a panic otherwise.
\<close>

definition applyEntry :: "server \<Rightarrow> raft_log \<Rightarrow> bool \<Rightarrow> apply_result \<times> server" where
  "applyEntry s l rec =
     (case Data_log l of
        Inl err \<Rightarrow> (Panicked err, s)
      | Inr log \<Rightarrow>
         (case apply_log (metadata s) log (Index_log l) rec of
            (Inl err, md1) \<Rightarrow>
              (if shutdown s then (Returned (Some err), s\<lparr>metadata := md1\<rparr>)
               else (Panicked err, s\<lparr>metadata := md1\<rparr>))
          | (Inr v, md1) \<Rightarrow> (Returned v, s\<lparr>metadata := md1\<rparr>)))"

text \<open>
  The deferred function runs when the body returns and also when it panics; its own
  panic replaces the outcome.
\<close>

definition deferredFinish :: "apply_result \<times> server \<Rightarrow> apply_result \<times> server" where
  "deferredFinish rs =
     (case finishedRecovery (snd rs) of
        ((n, Some err), s1) \<Rightarrow> (Panicked (Wrap ''failed to recover from Raft log'' err), s1)
      | ((n, None), s1) \<Rightarrow> (fst rs, s1))"

definition Apply :: "server \<Rightarrow> raft_log \<Rightarrow> apply_result \<times> server" where
  "Apply s l =
     (case establishBarrier s l of
        Inl err \<Rightarrow> (Panicked err, s)
      | Inr s1 \<Rightarrow>
         (let rec = isRecovered s1 l;
              fin = isLastRecovered s1 l;
              s2 = (if fin then s1\<lparr>latestRecoveredLog := None\<rparr> else s1)
          in if fin then deferredFinish (applyEntry s2 l rec) else applyEntry s2 l rec))"

subsection \<open>Snapshot, Persist and Restore\<close>

text \<open>
  The protobuf message \<open>proto.MetadataSnapshot\<close> holds the partition list. Its
  \<open>Marshal\<close> and \<open>Unmarshal\<close> are generated code that is not among the sources:
  \<open>Persist\<close> and \<open>Restore\<close> take them as arguments.
\<close>

record MetadataSnapshot =
  Partitions :: "proto_Partition list"

definition Snapshot :: "metadata \<Rightarrow> MetadataSnapshot" where
  "Snapshot md =
     \<lparr>Partitions = concat (map (\<lambda>st. map Partition (GetPartitions st)) (GetStreams md))\<rparr>"

text \<open>\<open>binary.BigEndian.PutUint32\<close> and \<open>binary.BigEndian.Uint32\<close> on four bytes.\<close>

definition PutUint32 :: "32 word \<Rightarrow> byte list" where
  "PutUint32 v = [ucast (drop_bit 24 v), ucast (drop_bit 16 v), ucast (drop_bit 8 v), ucast v]"

fun Uint32 :: "byte list \<Rightarrow> 32 word" where
  "Uint32 [b0, b1, b2, b3] =
     or (ucast b3) (or (push_bit 8 (ucast b2)) (or (push_bit 16 (ucast b1)) (push_bit 24 (ucast b0))))"
| "Uint32 other = 0"

text \<open>
  The snapshot sink of the consensus library: the bytes written to it, and whether it has
  been closed or cancelled. \<open>sink_io\<close> holds the outcomes of the two \<open>Write\<close> calls and
  of \<open>Close\<close>: a \<open>Write\<close> returns the number of bytes it wrote and an error, and by
  the contract of \<open>io.Writer\<close> it has written all the bytes when the error is nil.
  \<open>Persist\<close> ignores the number.
\<close>

record sink =
  written :: "byte list"
  sinkClosed :: bool
  sinkCancelled :: bool

record sink_io =
  sizeWrite :: "nat \<times> error option"
  dataWrite :: "nat \<times> error option"
  sinkClose :: "error option"

definition Persist ::
  "MetadataSnapshot \<Rightarrow> (MetadataSnapshot \<Rightarrow> error + byte list) \<Rightarrow> sink \<Rightarrow> sink_io
     \<Rightarrow> error option \<times> sink" where
  "Persist f Marshal snk io =
     (let (err, snk1) =
        (case Marshal f of
           Inl err \<Rightarrow> (Some err, snk)
         | Inr b \<Rightarrow>
            (let sizeBuf = PutUint32 (of_nat (length b)) in
             case sizeWrite io of
               (n, Some err) \<Rightarrow> (Some err, snk\<lparr>written := written snk @ take n sizeBuf\<rparr>)
             | (n, None) \<Rightarrow>
                (let snk2 = snk\<lparr>written := written snk @ sizeBuf\<rparr> in
                 case dataWrite io of
                   (m, Some err) \<Rightarrow> (Some err, snk2\<lparr>written := written snk2 @ take m b\<rparr>)
                 | (m, None) \<Rightarrow>
                    (let snk3 = snk2\<lparr>written := written snk2 @ b\<rparr> in
                     case sinkClose io of
                       Some err \<Rightarrow> (Some err, snk3)
                     | None \<Rightarrow> (None, snk3\<lparr>sinkClosed := True\<rparr>)))))
      in if err \<noteq> None then (err, snk1\<lparr>sinkCancelled := True\<rparr>) else (err, snk1))"

text \<open>
  \<open>io.ReadFull\<close> on the bytes of the snapshot: the \<open>n\<close> bytes read and the rest, or
  \<open>io.EOF\<close> when nothing is left and \<open>io.ErrUnexpectedEOF\<close> when too little is.
  The snapshot is the list of the bytes that its reader yields; the deferred
  \<open>snapshot.Close()\<close> and the two debug lines of \<open>Restore\<close> change nothing here.
\<close>

definition ReadFull :: "byte list \<Rightarrow> nat \<Rightarrow> error + byte list \<times> byte list" where
  "ReadFull r n =
     (if n \<le> length r then Inr (take n r, drop n r)
      else if r = [] then Inl EOF else Inl ErrUnexpectedEOF)"

text \<open>The loop of \<open>Restore\<close> over the partitions of the snapshot.\<close>

fun restorePartitions :: "metadata \<Rightarrow> proto_Partition list \<Rightarrow> error option \<times> metadata" where
  "restorePartitions md [] = (None, md)"
| "restorePartitions md (pp # pps) =
     (case applyCreatePartition md pp False of
        (Some err, md1) \<Rightarrow> (Some err, md1)
      | (None, md1) \<Rightarrow> restorePartitions md1 pps)"

definition Restore ::
  "metadata \<Rightarrow> byte list \<Rightarrow> (byte list \<Rightarrow> error + MetadataSnapshot) \<Rightarrow> error option \<times> metadata" where
  "Restore md snapshot Unmarshal =
     (case ReadFull snapshot 4 of
        Inl err \<Rightarrow> (Some err, md)
      | Inr (sizeBuf, rest) \<Rightarrow>
         (let size = Uint32 sizeBuf in
          case ReadFull rest (unat size) of
            Inl err \<Rightarrow> (Some err, md)
          | Inr (buf, rest1) \<Rightarrow>
             (case Unmarshal buf of
                Inl err \<Rightarrow> (Some err, md)
              | Inr snap \<Rightarrow>
                 (case Reset md of
                    (Some err, md1) \<Rightarrow> (Some err, md1)
                  | (None, md1) \<Rightarrow> restorePartitions md1 (Partitions snap)))))"

section \<open>Notions and concrete values for the properties of the state machine\<close>

text \<open>
  The partition an ISR or leader operation names, and what the operation does to that
  partition at epoch \<open>e\<close> (the call \<open>apply\<close> makes on it).
\<close>

fun target :: "RaftLog \<Rightarrow> (string \<times> 32 word) option" where
  "target (ShrinkISROp strm replica i) = Some (strm, i)"
| "target (ExpandISROp strm replica i) = Some (strm, i)"
| "target (ChangeLeaderOp strm ldr i) = Some (strm, i)"
| "target other = None"

fun mutation :: "RaftLog \<Rightarrow> partition \<Rightarrow> 64 word \<Rightarrow> error + partition" where
  "mutation (ShrinkISROp strm replica i) p e = RemoveFromISR p replica"
| "mutation (ExpandISROp strm replica i) p e = AddToISR p replica"
| "mutation (ChangeLeaderOp strm ldr i) p e = SetLeader p ldr e"
| "mutation other p e = Inr p"

text \<open>
  A partition of stream "orders" with replicas n1 and n2, the store that holds it after
  its creation at index 3, and a server whose recovery is over.
\<close>

definition pp0 :: proto_Partition where
  "pp0 = \<lparr>Stream = ''orders'', Id_p = 0, Replicas = [''n1'', ''n2''], Leader = ''n1'',
          Isr = [''n1'', ''n2''], LeaderEpoch = 0, Epoch = 0, Paused = False\<rparr>"

definition p3 :: partition where
  "p3 = \<lparr>Partition = pp0\<lparr>LeaderEpoch := 3, Epoch := 3\<rparr>, recovered = False, started = True\<rparr>"

definition md3 :: metadata where
  "md3 = [(''orders'', \<lparr>name = ''orders'', partitions = [(0, p3)]\<rparr>)]"

definition node5 :: raft_node where
  "node5 = \<lparr>commit_index = ''5'', FirstIndex = Inr 1,
            GetLog = (\<lambda>i. Inr \<lparr>Index_log = i, Type_log = LogCommand,
                                Data_log = Inr (DeleteStreamOp ''none'')\<rparr>)\<rparr>"

definition srv :: "metadata \<Rightarrow> server" where
  "srv md = \<lparr>metadata = md, recoveryStarted = True, latestRecoveredLog = None,
            shutdown = False, LogRecovery = True, loggerWriter = Output ''stderr'',
            loggerOut = Output ''stderr'', raft = node5, finishedRecoveries = 0\<rparr>"

definition entry_at :: "64 word \<Rightarrow> RaftLog \<Rightarrow> raft_log" where
  "entry_at i log = \<lparr>Index_log = i, Type_log = LogCommand, Data_log = Inr log\<rparr>"

text \<open>
  The newest command entry at or below \<open>c\<close>: an entry of the log store between \<open>f\<close>
  and \<open>c\<close> that is a command, every entry above it up to \<open>c\<close> being readable and not
  a command. And a range of the log store, all readable, that holds no command.
\<close>

definition newestCommand :: "raft_node \<Rightarrow> 64 word \<Rightarrow> 64 word \<Rightarrow> raft_log \<Rightarrow> bool" where
  "newestCommand rn f c b =
     (\<exists>j. f \<le> j \<and> j \<le> c \<and> GetLog rn j = Inr b \<and> Type_log b = LogCommand \<and>
          (\<forall>k. j < k \<and> k \<le> c \<longrightarrow> (\<exists>lg. GetLog rn k = Inr lg \<and> Type_log lg \<noteq> LogCommand)))"

definition noCommand :: "raft_node \<Rightarrow> 64 word \<Rightarrow> 64 word \<Rightarrow> bool" where
  "noCommand rn f c =
     (\<forall>k. f \<le> k \<and> k \<le> c \<longrightarrow> (\<exists>lg. GetLog rn k = Inr lg \<and> Type_log lg \<noteq> LogCommand))"

text \<open>A server that has just started, on a node whose log holds commands 1 to 5.\<close>

definition srv_start :: server where
  "srv_start = (srv [])\<lparr>recoveryStarted := False\<rparr>"

text \<open>
  The invariant of the metadata store: it is a map (no stream name twice, no partition id
  twice in a stream), every stream is filed under its name and has a partition, and every
  partition is filed under the stream and the id that its own metadata names. And a
  partition as \<open>Restore\<close> recreates it: the same metadata, added with
  \<open>recovered = false\<close>.
\<close>

definition stream_ok :: "string \<Rightarrow> stream \<Rightarrow> bool" where
  "stream_ok k st =
     (name st = k \<and> partitions st \<noteq> [] \<and> distinct (map fst (partitions st)) \<and>
      (\<forall>ip \<in> set (partitions st).
         Stream (Partition (snd ip)) = k \<and> Id_p (Partition (snd ip)) = fst ip))"

definition wf_store :: "metadata \<Rightarrow> bool" where
  "wf_store md = (distinct (map fst md) \<and> (\<forall>kst \<in> set md. stream_ok (fst kst) (snd kst)))"

definition recreated :: "partition \<Rightarrow> partition" where
  "recreated p = \<lparr>Partition = Partition p, recovered = False, started = True\<rparr>"

text \<open>
  A sink with nothing written, and outcomes of the sink's calls that all succeed, the
  second \<open>Write\<close> being of \<open>n\<close> bytes.
\<close>

definition sink0 :: sink where
  "sink0 = \<lparr>written = [], sinkClosed = False, sinkCancelled = False\<rparr>"

definition sink_ok :: "nat \<Rightarrow> sink_io" where
  "sink_ok n = \<lparr>sizeWrite = (4, None), dataWrite = (n, None), sinkClose = None\<rparr>"

section \<open>Properties of the segment\<close>

lemma newSegment_seg0:
  "newSegment ''/data'' 0 100 True [] False (Inr []) (Inr []) = (Some seg0, None)"
  by (simp add: newSegment_def setupIndex_def seg0_def)

text \<open>
  C10. \<open>Segment.Close\<close> is idempotent: on a segment that is already closed it returns nil
  and leaves the whole segment as it is, whatever the file system would answer; and after
  every Close that returns nil the segment's closed flag is set, so that a further Close
  returns nil and changes nothing.
\<close>

theorem Close_idempotent:
  "(closed s \<longrightarrow> Close s lc ic = (None, s)) \<and>
   (Close s lc ic = (None, s') \<longrightarrow> closed s' \<and> Close s' lc' ic' = (None, s'))"
  by (auto simp: Close_def close_def split: option.splits if_splits)

theorem Close_idempotent_witness:
  "closed (seg0\<lparr>closed := True\<rparr>) \<and>
   Close (seg0\<lparr>closed := True\<rparr>) (Some (IOError ''EIO'')) None = (None, seg0\<lparr>closed := True\<rparr>) \<and>
   Close seg0 None None = (None, seg0\<lparr>closed := True\<rparr>)"
  using Close_idempotent [of "seg0\<lparr>closed := True\<rparr>" "Some (IOError ''EIO'')" None]
    Close_idempotent [of seg0 None None "seg0\<lparr>closed := True\<rparr>"]
  by (simp add: Close_def close_def seg0_def)

subsection \<open>ReadAt and Replace\<close>

lemma close_done:
  "closed s \<or> (lc = None \<and> ic = None) \<Longrightarrow> close s lc ic = (None, s\<lparr>closed := True\<rparr>)"
  by (cases s) (auto simp: close_def)

lemma close_failed:
  "\<not> (closed s \<or> (lc = None \<and> ic = None)) \<Longrightarrow> \<exists>e. close s lc ic = (Some e, s)"
  by (auto simp: close_def split: option.splits)

lemma Replace_reopened:
  assumes "reopened s old io" "Replace s old io = (err, s', old')"
  shows "closed old' \<and> replaced old'"
proof -
  have c1: "close old (oldLogClose io) (oldIndexClose io) = (None, old\<lparr>closed := True\<rparr>)"
    using assms(1) by (intro close_done) (simp add: reopened_def)
  have c2: "close s (newLogClose io) (newIndexClose io) = (None, s\<lparr>closed := True\<rparr>)"
    using assms(1) by (intro close_done) (simp add: reopened_def)
  have "renameLog io = None" "renameIndex io = None" "openLog io = None"
    using assms(1) by (simp_all add: reopened_def)
  then show ?thesis
    using assms(2) c1 c2 by (auto simp: Replace_def Let_def split: prod.splits)
qed

lemma Replace_not_reopened_proj:
  assumes "\<not> reopened s old io"
  shows "fst (Replace s old io) \<noteq> None \<and>
         replaced (snd (snd (Replace s old io))) = replaced old"
proof (cases "closed old \<or> (oldLogClose io = None \<and> oldIndexClose io = None)")
  case False
  then obtain e where "close old (oldLogClose io) (oldIndexClose io) = (Some e, old)"
    using close_failed by blast
  then show ?thesis by (simp add: Replace_def)
next
  case True
  then have c1: "close old (oldLogClose io) (oldIndexClose io) = (None, old\<lparr>closed := True\<rparr>)"
    by (rule close_done)
  show ?thesis
  proof (cases "closed s \<or> (newLogClose io = None \<and> newIndexClose io = None)")
    case False
    then obtain e where "close s (newLogClose io) (newIndexClose io) = (Some e, s)"
      using close_failed by blast
    then show ?thesis using c1 by (simp add: Replace_def)
  next
    case cn: True
    then have c2: "close s (newLogClose io) (newIndexClose io) = (None, s\<lparr>closed := True\<rparr>)"
      by (rule close_done)
    have "renameLog io \<noteq> None \<or> renameIndex io \<noteq> None \<or> openLog io \<noteq> None"
      using assms True cn by (auto simp: reopened_def)
    then show ?thesis
      using c1 c2
      by (cases "renameLog io"; cases "renameIndex io"; cases "openLog io")
         (simp_all add: Replace_def Let_def)
  qed
qed

lemma Replace_not_reopened:
  assumes "\<not> reopened s old io" "Replace s old io = (err, s', old')"
  shows "err \<noteq> None \<and> replaced old' = replaced old"
  using Replace_not_reopened_proj [OF assms(1)] assms(2) by simp

text \<open>
  C7, as stated, fails: \<open>Replace\<close> does not always mark the old segment replaced. When
  the rename of the log file fails, \<open>Replace\<close> returns that error after it has closed the
  old segment and before it sets \<open>old.replaced\<close>; a reader of the old segment then
  receives \<open>ErrSegmentClosed\<close>, not \<open>ErrSegmentReplaced\<close>.
\<close>

theorem Replace_rename_fails_counterexample:
  "Replace (seg0\<lparr>suffix := ''.cleaned''\<rparr>) seg0 (io_ok\<lparr>renameLog := Some (IOError ''EACCES'')\<rparr>)
     = (Some (IOError ''EACCES''),
        seg0\<lparr>suffix := ''.cleaned'', closed := True\<rparr>,
        seg0\<lparr>closed := True\<rparr>) \<and>
   \<not> replaced (seg0\<lparr>closed := True\<rparr>) \<and>
   ReadAt (seg0\<lparr>closed := True\<rparr>) 4 0 None = ([], Some ErrSegmentClosed)"
  by (simp add: Replace_def close_def io_ok_def seg0_def ReadAt_def)

text \<open>
  C7, amended. \<open>ReadAt\<close> fails with \<open>ErrSegmentReplaced\<close> on a segment that is closed
  and replaced, fails with \<open>ErrSegmentClosed\<close> on one that is closed and not replaced,
  and otherwise reads the log file at the given position. \<open>s.Replace(old)\<close> marks \<open>old\<close>
  closed and replaced whenever closing both segments, both renames and reopening the log
  succeed (in particular whenever it returns nil), and a reader of \<open>old\<close> then receives
  \<open>ErrSegmentReplaced\<close>; when one of those steps fails, \<open>Replace\<close> returns an error and
  leaves the replaced flag of \<open>old\<close> as it was.
\<close>

theorem ReadAt_Replace:
  "(closed s \<and> replaced s \<longrightarrow> ReadAt s n off rd = ([], Some ErrSegmentReplaced)) \<and>
   (closed s \<and> \<not> replaced s \<longrightarrow> ReadAt s n off rd = ([], Some ErrSegmentClosed)) \<and>
   (\<not> closed s \<longrightarrow> ReadAt s n off rd = fileReadAt (logData s) n off rd) \<and>
   (Replace s old io = (err, s', old') \<longrightarrow>
      (if reopened s old io
       then closed old' \<and> replaced old' \<and> ReadAt old' n off rd = ([], Some ErrSegmentReplaced)
       else err \<noteq> None \<and> replaced old' = replaced old))"
proof -
  have "closed old' \<and> replaced old' \<and> ReadAt old' n off rd = ([], Some ErrSegmentReplaced)"
    if "reopened s old io" "Replace s old io = (err, s', old')"
    using that Replace_reopened [of s old io err s' old'] by (simp add: ReadAt_def)
  then show ?thesis
    using Replace_not_reopened [of s old io err s' old'] by (simp add: ReadAt_def)
qed

theorem ReadAt_Replace_witness:
  "reopened (seg0\<lparr>suffix := ''.cleaned''\<rparr>) seg0 io_ok \<and>
   Replace (seg0\<lparr>suffix := ''.cleaned''\<rparr>) seg0 io_ok
     = (None, seg0, seg0\<lparr>closed := True, replaced := True\<rparr>) \<and>
   ReadAt (seg0\<lparr>closed := True, replaced := True\<rparr>) 4 0 None = ([], Some ErrSegmentReplaced) \<and>
   ReadAt (seg0\<lparr>logData := [1, 2, 3, 4, 5]\<rparr>) 2 1 None = ([2, 3], None)"
proof -
  have r: "Replace (seg0\<lparr>suffix := ''.cleaned''\<rparr>) seg0 io_ok
     = (None, seg0, seg0\<lparr>closed := True, replaced := True\<rparr>)"
    by (simp add: Replace_def close_def io_ok_def seg0_def setupIndex_def)
  have o: "reopened (seg0\<lparr>suffix := ''.cleaned''\<rparr>) seg0 io_ok"
    by (simp add: reopened_def io_ok_def)
  have "\<not> closed (seg0\<lparr>logData := [1, 2, 3, 4, 5]\<rparr>)"
    by (simp add: seg0_def)
  then show ?thesis
    using r o ReadAt_Replace [of "seg0\<lparr>logData := [1, 2, 3, 4, 5]\<rparr>" 2 1 None]
      ReadAt_Replace [of "seg0\<lparr>suffix := ''.cleaned''\<rparr>" 4 0 None seg0 io_ok None seg0
        "seg0\<lparr>closed := True, replaced := True\<rparr>"]
    by (simp add: fileReadAt_def seg0_def)
qed

subsection \<open>The waiters map and its channels\<close>

lemma mapDelete_simps [simp]:
  "mapDelete k [] = []"
  "mapDelete k ((k', v) # m) = (if k' = k then mapDelete k m else (k', v) # mapDelete k m)"
  by (simp_all add: mapDelete_def)

lemma set_mapDelete: "set (mapDelete k m) = {kv \<in> set m. fst kv \<noteq> k}"
  by (auto simp: mapDelete_def)

lemma map_of_mapDelete: "map_of (mapDelete k m) k' = (if k' = k then None else map_of m k')"
  by (induction m) (auto simp: mapDelete_def)

lemma distinct_fst_mapDelete: "distinct (map fst m) \<Longrightarrow> distinct (map fst (mapDelete k m))"
  by (simp add: mapDelete_def distinct_map_filter)

lemma distinct_snd_mapDelete: "distinct (map snd m) \<Longrightarrow> distinct (map snd (mapDelete k m))"
  by (simp add: mapDelete_def distinct_map_filter)

lemma notifyLoop_result:
  assumes "distinct (map snd xs)" "\<forall>ch \<in> snd ` set xs. ch \<notin> closedChans s"
  shows "notifyLoop xs s =
           Return (s\<lparr>closedChans := closedChans s \<union> snd ` set xs,
                     waiters := filter (\<lambda>kv. fst kv \<notin> fst ` set xs) (waiters s)\<rparr>)"
  using assms
proof (induction xs arbitrary: s)
  case Nil
  then show ?case by simp
next
  case (Cons x xs)
  obtain r ch where x: "x = (r, ch)" by (cases x)
  let ?s1 = "s\<lparr>closedChans := insert ch (closedChans s), waiters := mapDelete r (waiters s)\<rparr>"
  have "notifyLoop xs ?s1 =
           Return (?s1\<lparr>closedChans := closedChans ?s1 \<union> snd ` set xs,
                     waiters := filter (\<lambda>kv. fst kv \<notin> fst ` set xs) (waiters ?s1)\<rparr>)"
    using Cons.prems x by (intro Cons.IH) auto
  moreover have "ch \<notin> closedChans s" using Cons.prems x by simp
  moreover have "filter (\<lambda>kv. fst kv \<notin> fst ` set xs) (mapDelete r (waiters s))
                 = filter (\<lambda>kv. fst kv \<notin> fst ` set (x # xs)) (waiters s)"
    using x by (auto simp: mapDelete_def intro: filter_cong)
  ultimately show ?case using x by simp
qed

lemma notifyWaiters_result:
  assumes "waiters_ok s"
  shows "notifyWaiters s =
           Return (s\<lparr>closedChans := closedChans s \<union> snd ` set (waiters s), waiters := []\<rparr>)"
proof -
  have "filter (\<lambda>kv. fst kv \<notin> fst ` set (waiters s)) (waiters s) = []"
    by (simp add: filter_empty_conv)
  then show ?thesis
    using assms notifyLoop_result [of "waiters s" s]
    by (simp add: notifyWaiters_def waiters_ok_def)
qed

lemma waiters_ok_notified:
  assumes "waiters_ok s"
  shows "waiters_ok (s\<lparr>closedChans := closedChans s \<union> snd ` set (waiters s), waiters := []\<rparr>)"
  using assms by (auto simp: waiters_ok_def)


lemma waiters_ok_cong:
  "waiters s' = waiters s \<Longrightarrow> nextChan s' = nextChan s \<Longrightarrow> closedChans s' = closedChans s
     \<Longrightarrow> waiters_ok s' = waiters_ok s"
  by (simp add: waiters_ok_def)

lemma write_seg_ok:
  assumes "waiters_ok s"
  shows "write_seg s p es wr = Panic ''index out of range'' \<or>
         (\<exists>n e s'. write_seg s p es wr = Return (n, e, s') \<and> waiters_ok s')"
proof (cases "closed s \<or> snd wr \<noteq> None \<or> es = []")
  case True
  then show ?thesis
    using assms by (auto simp: write_seg_def Let_def waiters_ok_def split: option.splits)
next
  case False
  define s4 where "s4 =
    (if firstWriteTime s = 0
     then s\<lparr>logData := logData s @ take (fst wr) p, position := position s + int (fst wr),
            firstOffset := Offset (hd es), firstWriteTime := Timestamp (hd es)\<rparr>
     else s\<lparr>logData := logData s @ take (fst wr) p, position := position s + int (fst wr)\<rparr>)
    \<lparr>lastOffset := Offset (last es), lastWriteTime := Timestamp (last es)\<rparr>"
  have ok4: "waiters_ok s4"
    using assms by (simp add: s4_def waiters_ok_def)
  have "write_seg s p es wr =
          (case notifyWaiters s4 of Panic msg \<Rightarrow> Panic msg | Return s5 \<Rightarrow> Return (fst wr, None, s5))"
    using False by (auto simp: write_seg_def Let_def s4_def)
  then show ?thesis
    using notifyWaiters_result [OF ok4] waiters_ok_notified [OF ok4] by simp
qed

lemma WriteMessageSet_ok:
  assumes "waiters_ok s"
  shows "WriteMessageSet s ms es wr iw = Panic ''index out of range'' \<or>
         (\<exists>e s'. WriteMessageSet s ms es wr iw = Return (e, s') \<and> waiters_ok s')"
  using write_seg_ok [OF assms, of ms es wr]
  by (auto simp: WriteMessageSet_def waiters_ok_def split: option.splits)

lemma Seal_ok:
  assumes "waiters_ok s"
  shows "\<exists>s'. Seal s = Return s' \<and> waiters_ok s'"
proof (cases "sealed s")
  case True
  then show ?thesis using assms by (simp add: Seal_def)
next
  case False
  have ok: "waiters_ok (s\<lparr>sealed := True\<rparr>)"
    using assms by (simp add: waiters_ok_def)
  show ?thesis
    using False notifyWaiters_result [OF ok] waiters_ok_notified [OF ok] by (simp add: Seal_def)
qed

lemma waitForData_ok:
  assumes "waiters_ok s"
  shows "waiters_ok (snd (waitForData s w pos))"
proof (cases "map_of (waiters s) w")
  case (Some ch)
  then show ?thesis using assms by (simp add: waitForData_def)
next
  case None
  then have "w \<notin> fst ` set (waiters s)"
    by (simp add: map_of_eq_None_iff)
  then have "mapDelete w (waiters s) = waiters s"
    by (auto simp: mapDelete_def filter_id_conv)
  then show ?thesis
    using assms None
    by (auto simp: waitForData_def Let_def waiters_ok_def mapSet_def less_Suc_eq)
qed

lemma WaitForLEO_ok:
  assumes "waiters_ok s"
  shows "waiters_ok (snd (WaitForLEO s w leo))"
proof (cases "lastOffset s \<noteq> leo")
  case True
  then show ?thesis
    using assms by (auto simp: WaitForLEO_def Let_def waiters_ok_def less_Suc_eq)
next
  case False
  then show ?thesis using waitForData_ok [OF assms] by (simp add: WaitForLEO_def)
qed

lemma removeWaiter_ok:
  assumes "waiters_ok s"
  shows "waiters_ok (removeWaiter s w)"
  using assms
  by (auto simp: removeWaiter_def waiters_ok_def distinct_fst_mapDelete distinct_snd_mapDelete
      set_mapDelete)

lemma step_ok:
  assumes "waiters_ok s"
  shows "step s x = Panic ''index out of range'' \<or> (\<exists>s'. step s x = Return s' \<and> waiters_ok s')"
proof (cases x)
  case (OpWriteMessageSet ms es wr iw)
  then show ?thesis using WriteMessageSet_ok [OF assms, of ms es wr iw] by auto
next
  case OpSeal
  then show ?thesis using Seal_ok [OF assms] by simp
next
  case (OpWaitForData w pos)
  then show ?thesis using waitForData_ok [OF assms] by (simp add: WaitForData_def)
next
  case (OpWaitForLEO w leo)
  then show ?thesis using WaitForLEO_ok [OF assms] by simp
next
  case (OpRemoveWaiter w)
  then show ?thesis using removeWaiter_ok [OF assms] by simp
qed

lemma run_ok:
  assumes "waiters_ok s"
  shows "run s xs = Panic ''index out of range'' \<or> (\<exists>s'. run s xs = Return s' \<and> waiters_ok s')"
  using assms
proof (induction xs arbitrary: s)
  case Nil
  then show ?case by simp
next
  case (Cons x xs)
  from step_ok [OF Cons.prems, of x] show ?case
  proof
    assume "step s x = Panic ''index out of range''"
    then show ?thesis by simp
  next
    assume "\<exists>s'. step s x = Return s' \<and> waiters_ok s'"
    then obtain s' where "step s x = Return s'" "waiters_ok s'" by blast
    then show ?thesis using Cons.IH [of s'] by simp
  qed
qed

lemma newSegment_waiters_ok:
  assumes "newSegment pth b m isNew suff present opened ix = (Some s, err)"
  shows "waiters_ok s"
  using assms
  by (auto simp: newSegment_def setupIndex_def waiters_ok_def Let_def
      split: if_splits sum.splits prod.splits)

lemma seg0_run:
  "run seg0 [OpWriteMessageSet [1, 2] [e0] (2, None) None, OpWaitForData 7 2, OpWaitForData 7 1]
     = Return seg_waiting"
proof -
  have "WriteMessageSet seg0 [1, 2] [e0] (2, None) None = Return (None, seg_first)"
    by (simp add: WriteMessageSet_def write_seg_def notifyWaiters_def seg0_def seg_first_def
        e0_def)
  moreover have "WaitForData seg_first 7 2 = (0, seg_waiting)"
    by (simp add: WaitForData_def waitForData_def seg_waiting_def seg_first_def seg0_def
        mapSet_def mapDelete_def)
  moreover have "WaitForData seg_waiting 7 1 = (0, seg_waiting)"
    by (simp add: WaitForData_def waitForData_def seg_waiting_def seg_first_def seg0_def)
  ultimately show ?thesis by simp
qed

lemma seg0_waiters_ok: "waiters_ok seg0"
  by (simp add: waiters_ok_def seg0_def)

text \<open>
  C9. Take a segment whose waiters map satisfies the invariant (every new segment does,
  by \<open>newSegment_waiters_ok\<close>) and run any sequence of writes, seals, waiter
  registrations and waiter removals on it. The run never panics on the close of a closed
  channel, so no channel is closed twice. In every state \<open>s\<close> the run reaches, no
  channel in the map is closed; \<open>notifyWaiters\<close> returns without a panic, having closed
  exactly the channels of the map, none of which was closed before and no two of which
  are the same, and leaves the map empty; and a waiter that is registered already gets
  its registered channel back from \<open>waitForData\<close>, the segment staying as it is.
\<close>

theorem waiters_closed_once:
  assumes "waiters_ok s0"
  shows "run s0 ops \<noteq> Panic ''close of closed channel'' \<and>
         (\<forall>s. run s0 ops = Return s \<longrightarrow>
            snd ` set (waiters s) \<inter> closedChans s = {} \<and>
            distinct (map snd (waiters s)) \<and>
            (\<exists>s'. notifyWaiters s = Return s' \<and> waiters s' = [] \<and>
                  closedChans s' = closedChans s \<union> snd ` set (waiters s)) \<and>
            (\<forall>w ch pos. map_of (waiters s) w = Some ch \<longrightarrow> waitForData s w pos = (ch, s)))"
proof -
  have "run s0 ops \<noteq> Panic ''close of closed channel''"
    using run_ok [OF assms, of ops] by auto
  moreover have "snd ` set (waiters s) \<inter> closedChans s = {} \<and>
            distinct (map snd (waiters s)) \<and>
            (\<exists>s'. notifyWaiters s = Return s' \<and> waiters s' = [] \<and>
                  closedChans s' = closedChans s \<union> snd ` set (waiters s)) \<and>
            (\<forall>w ch pos. map_of (waiters s) w = Some ch \<longrightarrow> waitForData s w pos = (ch, s))"
    if "run s0 ops = Return s" for s
  proof -
    have ok: "waiters_ok s"
      using run_ok [OF assms, of ops] that by auto
    have "snd ` set (waiters s) \<inter> closedChans s = {}" "distinct (map snd (waiters s))"
      using ok by (auto simp: waiters_ok_def)
    moreover have "\<exists>s'. notifyWaiters s = Return s' \<and> waiters s' = [] \<and>
                  closedChans s' = closedChans s \<union> snd ` set (waiters s)"
      using notifyWaiters_result [OF ok] by simp
    moreover have "\<forall>w ch pos. map_of (waiters s) w = Some ch \<longrightarrow> waitForData s w pos = (ch, s)"
      by (simp add: waitForData_def)
    ultimately show ?thesis by blast
  qed
  ultimately show ?thesis by blast
qed

theorem waiters_closed_once_witness:
  "waiters_ok seg0 \<and>
   run seg0 [OpWriteMessageSet [1, 2] [e0] (2, None) None, OpWaitForData 7 2, OpWaitForData 7 1]
     = Return seg_waiting \<and>
   waiters seg_waiting = [(7, 0)] \<and> closedChans seg_waiting = {} \<and>
   notifyWaiters seg_waiting = Return (seg_first\<lparr>nextChan := 1, closedChans := {0}\<rparr>) \<and>
   waitForData seg_waiting 7 1 = (0, seg_waiting)"
proof -
  have "notifyWaiters seg_waiting = Return (seg_first\<lparr>nextChan := 1, closedChans := {0}\<rparr>)"
    by (simp add: notifyWaiters_def seg_waiting_def seg_first_def seg0_def)
  moreover have "waiters seg_waiting = [(7, 0)]" "closedChans seg_waiting = {}"
    by (simp_all add: seg_waiting_def seg_first_def seg0_def)
  ultimately show ?thesis
    using waiters_closed_once [OF seg0_waiters_ok,
        of "[OpWriteMessageSet [1, 2] [e0] (2, None) None, OpWaitForData 7 2, OpWaitForData 7 1]"]
      seg0_run seg0_waiters_ok
    by simp
qed

subsection \<open>Waiting for data\<close>

text \<open>
  C8, as stated, fails for a waiter that is registered already: \<open>WaitForData\<close> hands
  back the registered channel, which is open, also when data past the target position
  exists. After a write of two bytes, waiter 7 registers at position 2 and then asks
  again with target position 1: the position, 2, is past the target, and the channel
  returned is the open channel 0.
\<close>

theorem WaitForData_registered_counterexample:
  "run seg0 [OpWriteMessageSet [1, 2] [e0] (2, None) None, OpWaitForData 7 2] = Return seg_waiting \<and>
   position seg_waiting > 1 \<and>
   WaitForData seg_waiting 7 1 = (0, seg_waiting) \<and>
   0 \<notin> closedChans seg_waiting"
proof -
  have "WriteMessageSet seg0 [1, 2] [e0] (2, None) None = Return (None, seg_first)"
    by (simp add: WriteMessageSet_def write_seg_def notifyWaiters_def seg0_def seg_first_def
        e0_def)
  moreover have "WaitForData seg_first 7 2 = (0, seg_waiting)"
    by (simp add: WaitForData_def waitForData_def seg_waiting_def seg_first_def seg0_def
        mapSet_def mapDelete_def)
  moreover have "WaitForData seg_waiting 7 1 = (0, seg_waiting)"
    by (simp add: WaitForData_def waitForData_def seg_waiting_def seg_first_def seg0_def)
  moreover have "position seg_waiting > 1" "0 \<notin> closedChans seg_waiting"
    by (simp_all add: seg_waiting_def seg_first_def seg0_def)
  ultimately show ?thesis by simp
qed

lemma waitForData_unregistered:
  assumes "map_of (waiters s) w = None"
  shows "waitForData s w pos =
           (nextChan s,
            if position s > pos \<or> position s \<ge> maxBytes s
            then s\<lparr>nextChan := Suc (nextChan s), closedChans := insert (nextChan s) (closedChans s)\<rparr>
            else s\<lparr>nextChan := Suc (nextChan s), waiters := (w, nextChan s) # waiters s\<rparr>)"
proof -
  have "w \<notin> fst ` set (waiters s)"
    using assms by (simp add: map_of_eq_None_iff)
  then have "mapDelete w (waiters s) = waiters s"
    by (auto simp: mapDelete_def filter_id_conv)
  then show ?thesis
    using assms by (simp add: waitForData_def Let_def mapSet_def)
qed

lemma WaitFor_sequential:
  assumes "waiters_ok s"
  shows "(case map_of (waiters s) w of
            Some c \<Rightarrow> WaitForData s w pos = (c, s) \<and> c \<notin> closedChans s
          | None \<Rightarrow>
             (\<exists>s'. WaitForData s w pos = (nextChan s, s') \<and>
                nextChan s \<notin> closedChans s \<and> nextChan s \<notin> snd ` set (waiters s) \<and>
                (if position s > pos \<or> position s \<ge> maxBytes s
                 then nextChan s \<in> closedChans s' \<and> waiters s' = waiters s
                 else nextChan s \<notin> closedChans s' \<and>
                      waiters s' = (w, nextChan s) # waiters s))) \<and>
         (if lastOffset s \<noteq> leo
          then (\<exists>s'. WaitForLEO s w leo = (nextChan s, s') \<and> nextChan s \<notin> closedChans s \<and>
                  nextChan s \<in> closedChans s' \<and> waiters s' = waiters s)
          else WaitForLEO s w leo = WaitForData s w (position s))"
proof -
  have fresh: "nextChan s \<notin> closedChans s" "nextChan s \<notin> snd ` set (waiters s)"
    using assms by (auto simp: waiters_ok_def)
  have "WaitForData s w pos = (c, s) \<and> c \<notin> closedChans s" if "map_of (waiters s) w = Some c" for c
  proof -
    have "c \<in> snd ` set (waiters s)"
      using that by (force dest: map_of_SomeD)
    then show ?thesis
      using that assms by (auto simp: WaitForData_def waitForData_def waiters_ok_def)
  qed
  moreover have "\<exists>s'. WaitForData s w pos = (nextChan s, s') \<and>
                nextChan s \<notin> closedChans s \<and> nextChan s \<notin> snd ` set (waiters s) \<and>
                (if position s > pos \<or> position s \<ge> maxBytes s
                 then nextChan s \<in> closedChans s' \<and> waiters s' = waiters s
                 else nextChan s \<notin> closedChans s' \<and>
                      waiters s' = (w, nextChan s) # waiters s)"
    if "map_of (waiters s) w = None"
    using waitForData_unregistered [OF that, of pos] fresh by (simp add: WaitForData_def)
  moreover have "\<exists>s'. WaitForLEO s w leo = (nextChan s, s') \<and> nextChan s \<notin> closedChans s \<and>
                  nextChan s \<in> closedChans s' \<and> waiters s' = waiters s"
    if "lastOffset s \<noteq> leo"
    using that fresh by (simp add: WaitForLEO_def Let_def)
  moreover have "WaitForLEO s w leo = WaitForData s w (position s)" if "\<not> lastOffset s \<noteq> leo"
    using that by (simp add: WaitForLEO_def WaitForData_def)
  ultimately show ?thesis
    by (cases "map_of (waiters s) w"; cases "lastOffset s \<noteq> leo") simp_all
qed

subsection \<open>A reader's call and a write at the same time\<close>

lemma fresh_next:
  assumes "waiters_ok s"
  shows "fresh_chan (nextChan s) (s\<lparr>nextChan := Suc (nextChan s)\<rparr>)"
    and "waiters_ok (s\<lparr>nextChan := Suc (nextChan s)\<rparr>)"
  using assms by (auto simp: fresh_chan_def waiters_ok_def less_Suc_eq)

lemma waiters_ok_close:
  assumes "waiters_ok s" "fresh_chan ch s"
  shows "waiters_ok (s\<lparr>closedChans := insert ch (closedChans s)\<rparr>)"
  using assms by (auto simp: fresh_chan_def waiters_ok_def)

lemma waiters_ok_register:
  assumes "waiters_ok s" "fresh_chan ch s"
  shows "waiters_ok (s\<lparr>waiters := mapSet w ch (waiters s)\<rparr>)"
  using assms
  by (auto simp: fresh_chan_def waiters_ok_def mapSet_def distinct_fst_mapDelete
      distinct_snd_mapDelete set_mapDelete)

lemma reader_inside_no_writer:
  assumes "race_inv call es c" "reader_inside (c_reader c)"
  shows "c_writer c = R_Lock \<or> (\<exists>e. c_writer c = R_Returned e)"
  using assms by (cases "c_writer c") (auto simp: race_inv_def)

lemma writer_inside_no_reader:
  assumes "race_inv call es c" "writer_inside (c_writer c)"
  shows "c_reader c = W_Lock \<or> (\<exists>ch. c_reader c = W_Returned ch)"
  using assms by (cases "c_reader c") (auto simp: race_inv_def)

lemma reader_step_inv:
  assumes inv: "race_inv call es c"
  shows "\<exists>c1. reader_step call c = Return c1 \<and> race_inv call es c1"
proof (cases "c_reader c")
  case W_Lock
  show ?thesis
  proof (cases "c_locked c")
    case True
    then show ?thesis using inv W_Lock by (simp add: reader_step_def Let_def)
  next
    case False
    then have out: "\<not> writer_inside (c_writer c)"
      using inv by (simp add: race_inv_def)
    show ?thesis
      using inv W_Lock False out
      by (cases call) (auto simp: reader_step_def race_inv_def Let_def)
  qed
next
  case W_LastOffset
  then have w: "c_writer c = R_Lock \<or> (\<exists>e. c_writer c = R_Returned e)"
    using reader_inside_no_writer [OF inv] by simp
  have ok: "waiters_ok (c_seg c)"
    using inv by (simp add: race_inv_def)
  show ?thesis
  proof (cases call)
    case (CallWaitForData w pos)
    then show ?thesis
      using inv W_LastOffset by (auto simp: reader_step_def race_inv_def Let_def)
  next
    case (CallWaitForLEO w leo)
    show ?thesis
    proof (cases "lastOffset (c_seg c) \<noteq> leo")
      case True
      then show ?thesis
        using inv W_LastOffset CallWaitForLEO fresh_next [OF ok]
        by (auto simp: reader_step_def race_inv_def Let_def)
    next
      case False
      then have "\<not> after_offsets (c_writer c)"
        using inv CallWaitForLEO by (auto simp: race_inv_def)
      then have "c_writer c = R_Lock"
        using w by auto
      then show ?thesis
        using inv W_LastOffset CallWaitForLEO False
        by (auto simp: reader_step_def race_inv_def Let_def)
    qed
  qed
next
  case (W_Lookup p)
  have ok: "waiters_ok (c_seg c)"
    using inv by (simp add: race_inv_def)
  show ?thesis
  proof (cases "map_of (waiters (c_seg c)) (waiter_of call)")
    case None
    then show ?thesis
      using inv W_Lookup fresh_next [OF ok]
      by (cases call) (auto simp: reader_step_def race_inv_def Let_def)
  next
    case (Some wait)
    then have "wait \<in> snd ` set (waiters (c_seg c))"
      by (force dest: map_of_SomeD)
    then show ?thesis
      using inv W_Lookup Some
      by (cases call) (auto simp: reader_step_def race_inv_def Let_def)
  qed
next
  case (W_Position ch p)
  then show ?thesis
    using inv by (cases call) (auto simp: reader_step_def race_inv_def Let_def)
next
  case (W_Close ch)
  then have f: "fresh_chan ch (c_seg c)" and ok: "waiters_ok (c_seg c)"
    using inv by (simp_all add: race_inv_def)
  then have nc: "ch \<notin> closedChans (c_seg c)"
    by (simp add: fresh_chan_def)
  show ?thesis
    using inv W_Close nc waiters_ok_close [OF ok f]
    by (cases call) (auto simp: reader_step_def race_inv_def Let_def)
next
  case (W_Register ch)
  then have f: "fresh_chan ch (c_seg c)" and ok: "waiters_ok (c_seg c)"
    and bw: "before_write (c_writer c)"
    using inv by (simp_all add: race_inv_def)
  have "c_writer c = R_Lock"
    using reader_inside_no_writer [OF inv] W_Register bw by auto
  then show ?thesis
    using inv W_Register waiters_ok_register [OF ok f, of "waiter_of call"]
    by (cases call) (auto simp: reader_step_def race_inv_def Let_def mapSet_def)
next
  case (W_Unlock ch)
  then have "c_locked c"
    using inv by (simp add: race_inv_def)
  moreover have "\<not> writer_inside (c_writer c)"
    using inv W_Unlock by (simp add: race_inv_def)
  ultimately show ?thesis
    using inv W_Unlock by (cases call) (auto simp: reader_step_def race_inv_def Let_def)
next
  case (W_Returned ch)
  then show ?thesis using inv by (simp add: reader_step_def Let_def)
qed

lemma writer_step_inv:
  assumes inv: "race_inv call es c" and es: "es \<noteq> []"
    and wres: "snd wres = None" "0 < fst wres"
  shows "\<exists>c1. writer_step bytes es wres ires c = Return c1 \<and> race_inv call es c1"
proof (cases "c_writer c")
  case R_Lock
  show ?thesis
  proof (cases "c_locked c")
    case True
    then show ?thesis using inv R_Lock by (simp add: writer_step_def Let_def)
  next
    case False
    then have "\<not> reader_inside (c_reader c)"
      using inv by (simp add: race_inv_def)
    then show ?thesis
      using inv R_Lock False
      by (cases call; cases "c_reader c") (auto simp: writer_step_def race_inv_def Let_def)
  qed
next
  case R_Write
  then have r: "c_reader c = W_Lock \<or> (\<exists>ch. c_reader c = W_Returned ch)"
    using writer_inside_no_reader [OF inv] by simp
  have nc: "\<not> closed (c_seg c)"
    using inv by (simp add: race_inv_def)
  show ?thesis
    using inv R_Write r nc wres
    by (cases call) (auto simp: writer_step_def race_inv_def Let_def waiters_ok_def)
next
  case R_Offsets
  then have r: "c_reader c = W_Lock \<or> (\<exists>ch. c_reader c = W_Returned ch)"
    using writer_inside_no_reader [OF inv] by simp
  show ?thesis
    using inv R_Offsets r es
    by (cases call) (auto simp: writer_step_def race_inv_def Let_def waiters_ok_def)
next
  case R_Notify
  then have r: "c_reader c = W_Lock \<or> (\<exists>ch. c_reader c = W_Returned ch)"
    using writer_inside_no_reader [OF inv] by simp
  have ok: "waiters_ok (c_seg c)"
    using inv by (simp add: race_inv_def)
  show ?thesis
    using inv R_Notify r notifyWaiters_result [OF ok] waiters_ok_notified [OF ok]
    by (cases call) (auto simp: writer_step_def race_inv_def Let_def)
next
  case R_Index
  then have r: "c_reader c = W_Lock \<or> (\<exists>ch. c_reader c = W_Returned ch)"
    using writer_inside_no_reader [OF inv] by simp
  show ?thesis
    using inv R_Index r
    by (cases call; cases ires) (auto simp: writer_step_def race_inv_def Let_def waiters_ok_def)
next
  case (R_Unlock e)
  then have r: "c_reader c = W_Lock \<or> (\<exists>ch. c_reader c = W_Returned ch)"
    using writer_inside_no_reader [OF inv] by simp
  have "c_locked c"
    using inv R_Unlock by (simp add: race_inv_def)
  then show ?thesis
    using inv R_Unlock r
    by (cases call) (auto simp: writer_step_def race_inv_def Let_def)
next
  case (R_Returned e)
  then show ?thesis using inv by (simp add: writer_step_def Let_def)
qed

lemma exec_inv:
  assumes "race_inv call es c" "es \<noteq> []" "snd wres = None" "0 < fst wres"
  shows "\<exists>c1. exec call bytes es wres ires gs c = Return c1 \<and> race_inv call es c1"
  using assms(1)
proof (induction gs arbitrary: c)
  case Nil
  then show ?case by simp
next
  case (Cons g gs)
  show ?case
  proof (cases g)
    case Reader
    obtain c1 where "reader_step call c = Return c1" "race_inv call es c1"
      using reader_step_inv [OF Cons.prems] by blast
    then show ?thesis using Cons.IH [of c1] Reader by simp
  next
    case Writer
    obtain c1 where "writer_step bytes es wres ires c = Return c1" "race_inv call es c1"
      using writer_step_inv [OF Cons.prems assms(2-4)] by blast
    then show ?thesis using Cons.IH [of c1] Writer by simp
  qed
qed

lemma both_start_inv:
  assumes "waiters_ok s" "\<not> closed s" "call_ok call es s R_Lock"
  shows "race_inv call es (both_start s)"
  using assms by (simp add: race_inv_def both_start_def)

lemma race_inv_returned:
  assumes "race_inv call es c" "c_reader c = W_Returned ch" "c_writer c = R_Returned e"
  shows "ch \<in> closedChans (c_seg c) \<and> \<not> c_locked c"
  using assms by (auto simp: race_inv_def)

lemma race_inv_lock:
  assumes "race_inv call es c"
  shows "(reader_inside (c_reader c) \<longrightarrow> c_locked c \<and> \<not> writer_inside (c_writer c)) \<and>
         (writer_inside (c_writer c) \<longrightarrow> c_locked c \<and> \<not> reader_inside (c_reader c))"
  using assms by (auto simp: race_inv_def)

text \<open>
  The lock alone, for any reader's call and any write, whatever their outcomes: in every
  state that the two goroutines reach, a goroutine between its \<open>Lock\<close> and its
  \<open>Unlock\<close> holds the lock and is alone there.
\<close>

lemma reader_step_lock:
  assumes "reader_step call c = Return c1"
    "c_locked c = (reader_inside (c_reader c) \<or> writer_inside (c_writer c))"
    "\<not> (reader_inside (c_reader c) \<and> writer_inside (c_writer c))"
  shows "c_locked c1 = (reader_inside (c_reader c1) \<or> writer_inside (c_writer c1)) \<and>
         \<not> (reader_inside (c_reader c1) \<and> writer_inside (c_writer c1))"
  using assms
  by (cases "c_reader c"; cases call)
     (auto simp: reader_step_def Let_def split: if_splits option.splits)

lemma writer_step_lock:
  assumes "writer_step bytes es wres ires c = Return c1"
    "c_locked c = (reader_inside (c_reader c) \<or> writer_inside (c_writer c))"
    "\<not> (reader_inside (c_reader c) \<and> writer_inside (c_writer c))"
  shows "c_locked c1 = (reader_inside (c_reader c1) \<or> writer_inside (c_writer c1)) \<and>
         \<not> (reader_inside (c_reader c1) \<and> writer_inside (c_writer c1))"
  using assms
  by (cases "c_writer c")
     (auto simp: writer_step_def Let_def split: if_splits option.splits result.splits)

lemma exec_lock:
  assumes "exec call bytes es wres ires gs c = Return c1"
    "c_locked c = (reader_inside (c_reader c) \<or> writer_inside (c_writer c))"
    "\<not> (reader_inside (c_reader c) \<and> writer_inside (c_writer c))"
  shows "c_locked c1 = (reader_inside (c_reader c1) \<or> writer_inside (c_writer c1)) \<and>
         \<not> (reader_inside (c_reader c1) \<and> writer_inside (c_writer c1))"
  using assms
proof (induction gs arbitrary: c)
  case Nil
  then show ?case by simp
next
  case (Cons g gs)
  show ?case
  proof (cases g)
    case Reader
    then obtain c2 where s: "reader_step call c = Return c2"
      and e: "exec call bytes es wres ires gs c2 = Return c1"
      using Cons.prems(1) by (auto split: result.splits)
    show ?thesis
      using Cons.IH [OF e] reader_step_lock [OF s Cons.prems(2,3)] by simp
  next
    case Writer
    then obtain c2 where s: "writer_step bytes es wres ires c = Return c2"
      and e: "exec call bytes es wres ires gs c2 = Return c1"
      using Cons.prems(1) by (auto split: result.splits)
    show ?thesis
      using Cons.IH [OF e] writer_step_lock [OF s Cons.prems(2,3)] by simp
  qed
qed

text \<open>Run alone, the steps of a call do what the method does.\<close>

lemma reader_alone:
  assumes "waiters_ok s"
  shows "exec call bytes es wres ires [Reader, Reader, Reader, Reader, Reader, Reader]
           (both_start s)
         = Return \<lparr>c_seg = snd (wait_result call s), c_locked = False,
                   c_reader = W_Returned (fst (wait_result call s)), c_writer = R_Lock\<rparr>"
proof -
  have f: "nextChan s \<notin> closedChans s"
    using assms by (auto simp: waiters_ok_def)
  show ?thesis
  proof (cases call)
    case (CallWaitForData w pos)
    then show ?thesis
      using f
      by (cases "map_of (waiters s) w")
         (auto simp: both_start_def reader_step_def WaitForData_def waitForData_def Let_def)
  next
    case (CallWaitForLEO w leo)
    then show ?thesis
      using f
      by (cases "map_of (waiters s) w")
         (auto simp: both_start_def reader_step_def WaitForLEO_def waitForData_def Let_def)
  qed
qed

lemma writer_alone:
  "exec call bytes es wres ires [Writer, Writer, Writer, Writer, Writer, Writer]
           (both_start s)
         = (case WriteMessageSet s bytes es wres ires of
              Panic msg \<Rightarrow> Panic msg
            | Return (err, s1) \<Rightarrow>
                Return \<lparr>c_seg = s1, c_locked = False, c_reader = W_Lock,
                        c_writer = R_Returned err\<rparr>)"
proof (cases "closed s")
  case True
  then show ?thesis
    by (simp add: both_start_def writer_step_def WriteMessageSet_def write_seg_def Let_def)
next
  case False
  show ?thesis
  proof (cases "snd wres")
    case (Some err)
    then show ?thesis
      using False
      by (simp add: both_start_def writer_step_def WriteMessageSet_def write_seg_def Let_def)
  next
    case None
    show ?thesis
    proof (cases "es = []")
      case True
      then show ?thesis
        using False None
        by (simp add: both_start_def writer_step_def WriteMessageSet_def write_seg_def Let_def)
    next
      case ne: False
      show ?thesis
      proof (cases "firstWriteTime s = 0")
        case True
        let ?s4 = "s\<lparr>logData := logData s @ take (fst wres) bytes,
                       position := position s + int (fst wres),
                       firstOffset := Offset (hd es), firstWriteTime := Timestamp (hd es),
                       lastOffset := Offset (last es), lastWriteTime := Timestamp (last es)\<rparr>"
        show ?thesis
        proof (cases "notifyWaiters ?s4")
          case (Panic msg)
          then show ?thesis
            using False None ne True
            by (simp add: both_start_def writer_step_def WriteMessageSet_def write_seg_def
                Let_def)
        next
          case (Return s5)
          then show ?thesis
            using False None ne True
            by (cases ires)
               (simp_all add: both_start_def writer_step_def WriteMessageSet_def
                  write_seg_def Let_def)
        qed
      next
        case nz: False
        let ?s4 = "s\<lparr>logData := logData s @ take (fst wres) bytes,
                       position := position s + int (fst wres),
                       lastOffset := Offset (last es), lastWriteTime := Timestamp (last es)\<rparr>"
        show ?thesis
        proof (cases "notifyWaiters ?s4")
          case (Panic msg)
          then show ?thesis
            using False None ne nz
            by (simp add: both_start_def writer_step_def WriteMessageSet_def write_seg_def
                Let_def)
        next
          case (Return s5)
          then show ?thesis
            using False None ne nz
            by (cases ires)
               (simp_all add: both_start_def writer_step_def WriteMessageSet_def
                  write_seg_def Let_def)
        qed
      qed
    qed
  qed
qed

text \<open>
  C8, amended. On a segment whose waiters map satisfies the invariant:
  \<open>WaitForData(waiter, pos)\<close> for a waiter that is not registered returns a new channel,
  which is closed already when data past the target exists (\<open>position > pos\<close>) or the
  segment is full (\<open>position \<ge> maxBytes\<close>), the map staying as it is, and which is
  otherwise open and registered for the waiter; for a waiter that is registered already
  it returns the registered channel, which is open, and changes nothing, whatever the
  position. \<open>WaitForLEO(waiter, leo)\<close> returns a new closed channel and leaves the map as
  it is when the segment's last offset differs from \<open>leo\<close>, and otherwise does what
  \<open>WaitForData\<close> does at the segment's current position.

  The test of the position and the registration are made under the segment's write lock:
  run statement by statement next to a call of \<open>WriteMessageSet\<close>, in any interleaving,
  a call between its \<open>Lock\<close> and its \<open>Unlock\<close> holds the lock and the other call is
  not between its own then; and the statements of the reader's call, run alone, do what
  is said above. So a write racing with the registration cannot be missed: for a
  successful write of at least one byte to an open segment, and a call of \<open>WaitForData\<close>
  with a target position not past the segment's position, or a call of \<open>WaitForLEO\<close>
  with \<open>leo\<close> other than the last offset written, no interleaving panics, and once both
  calls have returned, the channel returned to the reader is closed.
\<close>

theorem WaitFor_channel:
  assumes "waiters_ok s"
  shows "(case map_of (waiters s) w of
            Some c \<Rightarrow> WaitForData s w pos = (c, s) \<and> c \<notin> closedChans s
          | None \<Rightarrow>
             (\<exists>s'. WaitForData s w pos = (nextChan s, s') \<and>
                nextChan s \<notin> closedChans s \<and> nextChan s \<notin> snd ` set (waiters s) \<and>
                (if position s > pos \<or> position s \<ge> maxBytes s
                 then nextChan s \<in> closedChans s' \<and> waiters s' = waiters s
                 else nextChan s \<notin> closedChans s' \<and>
                      waiters s' = (w, nextChan s) # waiters s))) \<and>
         (if lastOffset s \<noteq> leo
          then (\<exists>s'. WaitForLEO s w leo = (nextChan s, s') \<and> nextChan s \<notin> closedChans s \<and>
                  nextChan s \<in> closedChans s' \<and> waiters s' = waiters s)
          else WaitForLEO s w leo = WaitForData s w (position s)) \<and>
         exec call bytes es wres ires [Reader, Reader, Reader, Reader, Reader, Reader]
             (both_start s)
           = Return \<lparr>c_seg = snd (wait_result call s), c_locked = False,
                     c_reader = W_Returned (fst (wait_result call s)), c_writer = R_Lock\<rparr> \<and>
         (\<forall>gs c. exec call bytes es wres ires gs (both_start s) = Return c \<longrightarrow>
            (reader_inside (c_reader c) \<longrightarrow> c_locked c \<and> \<not> writer_inside (c_writer c)) \<and>
            (writer_inside (c_writer c) \<longrightarrow> c_locked c \<and> \<not> reader_inside (c_reader c))) \<and>
         (\<not> closed s \<and> es \<noteq> [] \<and> snd wres = None \<and> 0 < fst wres \<and>
          (case call of
             CallWaitForData w1 pos1 \<Rightarrow> pos1 \<le> position s
           | CallWaitForLEO w1 leo1 \<Rightarrow> Offset (last es) \<noteq> leo1) \<longrightarrow>
          (\<forall>gs. \<exists>c. exec call bytes es wres ires gs (both_start s) = Return c \<and>
             (\<forall>ch err. c_reader c = W_Returned ch \<and> c_writer c = R_Returned err \<longrightarrow>
                ch \<in> closedChans (c_seg c) \<and> \<not> c_locked c)))"
proof -
  have lock: "(reader_inside (c_reader c) \<longrightarrow> c_locked c \<and> \<not> writer_inside (c_writer c)) \<and>
              (writer_inside (c_writer c) \<longrightarrow> c_locked c \<and> \<not> reader_inside (c_reader c))"
    if "exec call bytes es wres ires gs (both_start s) = Return c" for gs c
    using exec_lock [OF that] by (auto simp: both_start_def)
  have race: "\<exists>c. exec call bytes es wres ires gs (both_start s) = Return c \<and>
             (\<forall>ch err. c_reader c = W_Returned ch \<and> c_writer c = R_Returned err \<longrightarrow>
                ch \<in> closedChans (c_seg c) \<and> \<not> c_locked c)"
    if h: "\<not> closed s" "es \<noteq> []" "snd wres = None" "0 < fst wres"
      "case call of CallWaitForData w1 pos1 \<Rightarrow> pos1 \<le> position s
       | CallWaitForLEO w1 leo1 \<Rightarrow> Offset (last es) \<noteq> leo1" for gs
  proof -
    have "call_ok call es s R_Lock"
      using h(5) by (cases call) simp_all
    then have "race_inv call es (both_start s)"
      using assms h(1) by (intro both_start_inv)
    then obtain c where c: "exec call bytes es wres ires gs (both_start s) = Return c"
      "race_inv call es c"
      using exec_inv [OF _ h(2,3,4)] by blast
    then show ?thesis
      using race_inv_returned [OF c(2)] by blast
  qed
  show ?thesis
    using WaitFor_sequential [OF assms, of w pos leo]
      reader_alone [OF assms, of call bytes es wres ires] lock race
    by (intro conjI allI impI) (simp_all only: simp_thms, blast+)
qed

theorem WaitFor_channel_witness:
  "waiters_ok seg_first \<and> waiters_ok seg_waiting \<and>
   WaitForData seg_first 7 2 = (0, seg_waiting) \<and>
   WaitForData seg_first 7 1
     = (0, seg_first\<lparr>nextChan := 1, closedChans := {0}\<rparr>) \<and>
   WaitForData seg_waiting 7 1 = (0, seg_waiting) \<and>
   WaitForLEO seg_first 7 0 = (0, seg_waiting) \<and>
   WaitForLEO seg_first 7 5
     = (0, seg_first\<lparr>nextChan := 1, closedChans := {0}\<rparr>) \<and>
   exec (CallWaitForData 7 2) [3] [e1] (1, None) None
      [Reader, Writer, Reader, Reader, Writer, Reader, Reader,
       Writer, Writer, Writer, Writer, Writer, Writer] (both_start seg_first)
     = Return \<lparr>c_seg = seg_second\<lparr>nextChan := 1, closedChans := {0}\<rparr>, c_locked = False,
               c_reader = W_Returned 0, c_writer = R_Returned None\<rparr> \<and>
   exec (CallWaitForData 7 2) [3] [e1] (1, None) None
      [Writer, Reader, Writer, Writer, Writer, Writer, Writer,
       Reader, Reader, Reader, Reader, Reader] (both_start seg_first)
     = Return \<lparr>c_seg = seg_second\<lparr>nextChan := 1, closedChans := {0}\<rparr>, c_locked = False,
               c_reader = W_Returned 0, c_writer = R_Returned None\<rparr>"
proof -
  have ok: "waiters_ok seg_first" "waiters_ok seg_waiting"
    by (simp_all add: waiters_ok_def seg_waiting_def seg_first_def seg0_def)
  have "WaitForData seg_first 7 2 = (0, seg_waiting)"
    "WaitForData seg_first 7 1 = (0, seg_first\<lparr>nextChan := 1, closedChans := {0}\<rparr>)"
    "WaitForLEO seg_first 7 5 = (0, seg_first\<lparr>nextChan := 1, closedChans := {0}\<rparr>)"
    by (simp_all add: WaitForLEO_def WaitForData_def waitForData_def seg_waiting_def
        seg_first_def seg0_def mapSet_def mapDelete_def)
  moreover have "position seg_first = 2" "lastOffset seg_first = 0"
    "map_of (waiters seg_waiting) 7 = Some 0"
    by (simp_all add: seg_waiting_def seg_first_def seg0_def)
  moreover have "exec (CallWaitForData 7 2) [3] [e1] (1, None) None
      [Reader, Writer, Reader, Reader, Writer, Reader, Reader,
       Writer, Writer, Writer, Writer, Writer, Writer] (both_start seg_first)
     = Return \<lparr>c_seg = seg_second\<lparr>nextChan := 1, closedChans := {0}\<rparr>, c_locked = False,
               c_reader = W_Returned 0, c_writer = R_Returned None\<rparr>"
    by (simp add: both_start_def reader_step_def writer_step_def notifyWaiters_def
        mapSet_def mapDelete_def seg_first_def seg_second_def seg0_def e0_def e1_def Let_def)
  moreover have "exec (CallWaitForData 7 2) [3] [e1] (1, None) None
      [Writer, Reader, Writer, Writer, Writer, Writer, Writer,
       Reader, Reader, Reader, Reader, Reader] (both_start seg_first)
     = Return \<lparr>c_seg = seg_second\<lparr>nextChan := 1, closedChans := {0}\<rparr>, c_locked = False,
               c_reader = W_Returned 0, c_writer = R_Returned None\<rparr>"
    by (simp add: both_start_def reader_step_def writer_step_def notifyWaiters_def
        mapSet_def mapDelete_def seg_first_def seg_second_def seg0_def e0_def e1_def Let_def)
  ultimately show ?thesis
    using ok WaitFor_channel [OF ok(1), of 7 2 0 "CallWaitForData 7 2" "[3]" "[e1]" "(1, None)" None]
      WaitFor_channel [OF ok(2), of 7 1 0 "CallWaitForData 7 1" "[3]" "[e1]" "(1, None)" None]
    by simp
qed

subsection \<open>WriteMessageSet\<close>

text \<open>
  C6, as stated, fails in two ways. First, the segment takes \<open>firstWriteTime = 0\<close> for
  "not written yet": when the first message set written to a new segment has timestamp 0,
  the second write sets \<open>firstOffset\<close> and \<open>firstWriteTime\<close> again (here \<open>firstOffset\<close>
  goes from 0 to 1). Second, on an open segment whose log write fails, nothing is
  appended to the index and the error is the wrapped write error.
\<close>

theorem WriteMessageSet_first_write_counterexample:
  "WriteMessageSet seg0 [1, 2] [e0] (2, None) None = Return (None, seg_first) \<and>
   firstOffset seg_first = 0 \<and>
   WriteMessageSet seg_first [3] [e1] (1, None) None = Return (None, seg_second) \<and>
   firstOffset seg_second = 1 \<and>
   WriteMessageSet seg0 [1, 2] [e0] (0, Some (IOError ''ENOSPC'')) None
     = Return (Some (Wrap ''log write failed'' (IOError ''ENOSPC'')), seg0)"
proof -
  have "WriteMessageSet seg0 [1, 2] [e0] (2, None) None = Return (None, seg_first)"
    by (simp add: WriteMessageSet_def write_seg_def notifyWaiters_def seg0_def seg_first_def
        e0_def)
  moreover have "WriteMessageSet seg_first [3] [e1] (1, None) None = Return (None, seg_second)"
    by (simp add: WriteMessageSet_def write_seg_def notifyWaiters_def seg0_def seg_first_def
        seg_second_def e0_def e1_def)
  moreover have "WriteMessageSet seg0 [1, 2] [e0] (0, Some (IOError ''ENOSPC'')) None
     = Return (Some (Wrap ''log write failed'' (IOError ''ENOSPC'')), seg0)"
    by (simp add: WriteMessageSet_def write_seg_def seg0_def)
  moreover have "firstOffset seg_first = 0" "firstOffset seg_second = 1"
    by (simp_all add: seg_first_def seg_second_def seg0_def)
  ultimately show ?thesis by simp
qed

lemma write_seg_written:
  assumes "\<not> closed s" "es \<noteq> []" "waiters_ok s"
  shows "write_seg s ms es (n, None) =
           Return (n, None,
             s\<lparr>logData := logData s @ take n ms,
               position := position s + int n,
               firstOffset := (if firstWriteTime s = 0 then Offset (hd es) else firstOffset s),
               firstWriteTime := (if firstWriteTime s = 0 then Timestamp (hd es)
                                  else firstWriteTime s),
               lastOffset := Offset (last es),
               lastWriteTime := Timestamp (last es),
               closedChans := closedChans s \<union> snd ` set (waiters s),
               waiters := []\<rparr>)"
proof -
  define s4 where "s4 =
    s\<lparr>logData := logData s @ take n ms,
      position := position s + int n,
      firstOffset := (if firstWriteTime s = 0 then Offset (hd es) else firstOffset s),
      firstWriteTime := (if firstWriteTime s = 0 then Timestamp (hd es) else firstWriteTime s),
      lastOffset := Offset (last es),
      lastWriteTime := Timestamp (last es)\<rparr>"
  have ok4: "waiters_ok s4"
    using assms(3) by (simp add: s4_def waiters_ok_def)
  have "write_seg s ms es (n, None) =
          (case notifyWaiters s4 of Panic msg \<Rightarrow> Panic msg | Return s5 \<Rightarrow> Return (n, None, s5))"
    using assms(1,2) by (cases s) (simp add: write_seg_def Let_def s4_def)
  then show ?thesis
    using notifyWaiters_result [OF ok4] by (simp add: s4_def)
qed

text \<open>
  C6, amended. For non-empty entries, on a segment whose waiters map satisfies the
  invariant: if the segment is closed, \<open>WriteMessageSet\<close> fails with
  \<open>ErrSegmentClosed\<close> and changes nothing. Otherwise, if the log write fails, it returns
  that error wrapped as "log write failed" and changes nothing but the log file, which
  holds the bytes written before the failure. Otherwise, with \<open>n\<close> bytes written, it
  appends them to the log file, adds \<open>n\<close> to the position, sets \<open>firstOffset\<close> and
  \<open>firstWriteTime\<close> from the first entry exactly when \<open>firstWriteTime\<close> was 0 (as it is
  on a new, empty segment), sets \<open>lastOffset\<close> and \<open>lastWriteTime\<close> from the last
  entry, closes the channel of every registered waiter and empties the waiters map, and
  then appends the entries to the index, or returns the error of the index write.
\<close>

theorem WriteMessageSet_effect:
  assumes "es \<noteq> []" "waiters_ok s"
  shows "(closed s \<longrightarrow> WriteMessageSet s ms es wr iw = Return (Some ErrSegmentClosed, s)) \<and>
         (\<not> closed s \<longrightarrow>
            (case snd wr of
               Some err \<Rightarrow>
                 WriteMessageSet s ms es wr iw =
                   Return (Some (Wrap ''log write failed'' err),
                           s\<lparr>logData := logData s @ take (fst wr) ms\<rparr>)
             | None \<Rightarrow>
                 (\<exists>s'. WriteMessageSet s ms es wr iw = Return (iw, s') \<and>
                    logData s' = logData s @ take (fst wr) ms \<and>
                    Index s' = (if iw = None then Index s @ es else Index s) \<and>
                    position s' = position s + int (fst wr) \<and>
                    firstOffset s' =
                      (if firstWriteTime s = 0 then Offset (hd es) else firstOffset s) \<and>
                    firstWriteTime s' =
                      (if firstWriteTime s = 0 then Timestamp (hd es) else firstWriteTime s) \<and>
                    lastOffset s' = Offset (last es) \<and>
                    lastWriteTime s' = Timestamp (last es) \<and>
                    waiters s' = [] \<and>
                    closedChans s' = closedChans s \<union> snd ` set (waiters s))))"
proof (cases "closed s")
  case True
  then show ?thesis by (simp add: WriteMessageSet_def write_seg_def)
next
  case False
  show ?thesis
  proof (cases "snd wr")
    case (Some err)
    then show ?thesis
      using False by (simp add: WriteMessageSet_def write_seg_def Let_def)
  next
    case None
    then have wr: "wr = (fst wr, None)" by (cases wr) simp
    show ?thesis
      using False None write_seg_written [OF False assms, of ms "fst wr"]
      by (subst (1 2) wr) (cases iw; simp add: WriteMessageSet_def)
  qed
qed

theorem WriteMessageSet_effect_witness:
  "waiters_ok seg_waiting \<and> \<not> closed seg_waiting \<and>
   WriteMessageSet seg_waiting [3] [e1] (1, None) None
     = Return (None, seg_second\<lparr>nextChan := 1, closedChans := {0}\<rparr>) \<and>
   WriteMessageSet (seg_waiting\<lparr>closed := True\<rparr>) [3] [e1] (1, None) None
     = Return (Some ErrSegmentClosed, seg_waiting\<lparr>closed := True\<rparr>)"
proof -
  have ok: "waiters_ok seg_waiting" "waiters_ok (seg_waiting\<lparr>closed := True\<rparr>)"
    by (simp_all add: waiters_ok_def seg_waiting_def seg_first_def seg0_def)
  have ne: "[e1] \<noteq> []" by simp
  have "WriteMessageSet seg_waiting [3] [e1] (1, None) None
     = Return (None, seg_second\<lparr>nextChan := 1, closedChans := {0}\<rparr>)"
    by (simp add: WriteMessageSet_def write_seg_def notifyWaiters_def seg0_def seg_first_def
        seg_second_def seg_waiting_def e0_def e1_def)
  moreover have "\<not> closed seg_waiting"
    by (simp add: seg_waiting_def seg_first_def seg0_def)
  ultimately show ?thesis
    using ok(1) WriteMessageSet_effect [OF ne ok(1), of "[3]" "(1, None)" None]
      WriteMessageSet_effect [OF ne ok(2), of "[3]" "(1, None)" None]
    by simp
qed

section \<open>Properties of the state machine\<close>

subsection \<open>The recovery steps leave the partitions' metadata alone\<close>

lemma establishBarrier_fields:
  assumes "establishBarrier s l = Inr s1"
  shows "metadata s1 = metadata s" "shutdown s1 = shutdown s" "recoveryStarted s1"
    "finishedRecoveries s1 = finishedRecoveries s"
  using assms
  by (auto simp: establishBarrier_def startedRecovery_def Let_def
      split: if_splits sum.splits)

lemma StartRecovered_eq:
  "StartRecovered p = ((recovered p, None), snd (StartRecovered p))"
  by (simp add: StartRecovered_def)

lemma startPartitions_Cons:
  "startPartitions ((i, p) # ps) =
     ((recovered p \<or> fst (fst (startPartitions ps)), snd (fst (startPartitions ps))),
      (i, snd (StartRecovered p)) # snd (startPartitions ps))"
  by (subst startPartitions.simps, subst StartRecovered_eq) (simp split: prod.splits)

lemma startPartitions_no_error: "snd (fst (startPartitions ps)) = None"
proof (induction ps)
  case Nil
  then show ?case by simp
next
  case (Cons x ps)
  then show ?case
    by (cases x) (simp add: startPartitions_Cons del: startPartitions.simps)
qed

lemma map_of_startPartitions:
  "map_of (snd (startPartitions ps)) i = map_option (\<lambda>p. snd (StartRecovered p)) (map_of ps i)"
proof (induction ps)
  case Nil
  then show ?case by simp
next
  case (Cons x ps)
  then show ?case
    by (cases x) (simp add: startPartitions_Cons del: startPartitions.simps)
qed

lemma startStreams_Cons:
  "startStreams ((k, st) # md) =
     (((if fst (fst (startPartitions (partitions st))) then [name st] else [])
          @ fst (fst (startStreams md)),
       snd (fst (startStreams md))),
      (k, st\<lparr>partitions := snd (startPartitions (partitions st))\<rparr>) # snd (startStreams md))"
proof -
  obtain r e ps1 where sp: "startPartitions (partitions st) = ((r, e), ps1)"
    by (metis prod.exhaust)
  then have "e = None"
    using startPartitions_no_error [of "partitions st"] by simp
  then show ?thesis
    using sp by (simp split: prod.splits)
qed

lemma startStreams_no_error: "snd (fst (startStreams md)) = None"
proof (induction md)
  case Nil
  then show ?case by simp
next
  case (Cons x md)
  then show ?case
    by (cases x) (simp add: startStreams_Cons del: startStreams.simps)
qed

lemma GetPartition_startStreams:
  "GetPartition (snd (startStreams md)) nm i
     = map_option (\<lambda>p. snd (StartRecovered p)) (GetPartition md nm i)"
proof (induction md)
  case Nil
  then show ?case by (simp add: GetPartition_def)
next
  case (Cons x md)
  then show ?case
    by (cases x)
       (simp add: startStreams_Cons GetPartition_def map_of_startPartitions
          del: startStreams.simps)
qed

lemma finishedRecovery_fields:
  "snd (fst (finishedRecovery s)) = None"
  "metadata (snd (finishedRecovery s)) = snd (startStreams (metadata s))"
  "shutdown (snd (finishedRecovery s)) = shutdown s"
  "finishedRecoveries (snd (finishedRecovery s)) = Suc (finishedRecoveries s)"
  "latestRecoveredLog (snd (finishedRecovery s)) = latestRecoveredLog s"
  using startStreams_no_error [of "metadata s"]
  by (auto simp: finishedRecovery_def Let_def split: prod.splits option.splits)

lemma deferredFinish_eq: "deferredFinish rs = (fst rs, snd (finishedRecovery (snd rs)))"
  using finishedRecovery_fields(1) [of "snd rs"]
  by (auto simp: deferredFinish_def split: prod.splits option.splits)

lemma Apply_cases:
  "Apply s l =
     (case establishBarrier s l of
        Inl err \<Rightarrow> (Panicked err, s)
      | Inr s1 \<Rightarrow>
         (if isLastRecovered s1 l
          then (fst (applyEntry (s1\<lparr>latestRecoveredLog := None\<rparr>) l (isRecovered s1 l)),
                snd (finishedRecovery
                       (snd (applyEntry (s1\<lparr>latestRecoveredLog := None\<rparr>) l (isRecovered s1 l)))))
          else applyEntry s1 l (isRecovered s1 l)))"
  by (simp add: Apply_def Let_def deferredFinish_eq split: sum.splits)

lemma applyEntry_fields:
  "metadata (snd (applyEntry s l rec))
     = (case Data_log l of Inl err \<Rightarrow> metadata s
        | Inr log \<Rightarrow> snd (apply_log (metadata s) log (Index_log l) rec))"
  "shutdown (snd (applyEntry s l rec)) = shutdown s"
  "fst (applyEntry s l rec)
     = (case Data_log l of Inl err \<Rightarrow> Panicked err
        | Inr log \<Rightarrow>
           (case fst (apply_log (metadata s) log (Index_log l) rec) of
              Inl err \<Rightarrow> if shutdown s then Returned (Some err) else Panicked err
            | Inr v \<Rightarrow> Returned v))"
  by (auto simp: applyEntry_def split: sum.splits prod.splits)

text \<open>What \<open>Apply\<close> returns and what it leaves in the store, once the barrier step is over.\<close>

lemma Apply_result:
  assumes "establishBarrier s l = Inr s1" "Data_log l = Inr log"
  shows "fst (Apply s l)
           = (case fst (apply_log (metadata s) log (Index_log l) (isRecovered s1 l)) of
                Inl err \<Rightarrow> if shutdown s then Returned (Some err) else Panicked err
              | Inr v \<Rightarrow> Returned v)"
    and "metadata (snd (Apply s l))
           = (let md1 = snd (apply_log (metadata s) log (Index_log l) (isRecovered s1 l))
              in if isLastRecovered s1 l then snd (startStreams md1) else md1)"
  using assms establishBarrier_fields [OF assms(1)]
  by (auto simp: Apply_cases applyEntry_fields finishedRecovery_fields Let_def
      split: sum.splits)

subsection \<open>Lookups in the store after an update\<close>

lemma map_of_map_key:
  "map_of (map (\<lambda>(k, v). if k = nm then (k, f v) else (k, v)) m) k'
     = (if k' = nm then map_option f (map_of m nm) else map_of m k')"
  by (induction m) auto

lemma map_of_append_new:
  "map_of m k = None \<Longrightarrow> map_of (m @ [(k, v)]) k' = (if k' = k then Some v else map_of m k')"
  by (induction m) auto

lemma GetPartition_putPartition:
  "GetPartition (putPartition md nm i p) nm' i'
     = (if nm' = nm \<and> i' = i then map_option (\<lambda>q. p) (GetPartition md nm i)
        else GetPartition md nm' i')"
proof -
  let ?g = "\<lambda>st. st\<lparr>partitions := map (\<lambda>(j, q). if j = i then (j, p) else (j, q)) (partitions st)\<rparr>"
  have "putPartition md nm i p = map (\<lambda>(k, st). if k = nm then (k, ?g st) else (k, st)) md"
    by (simp add: putPartition_def)
  then have "map_of (putPartition md nm i p) nm'
               = (if nm' = nm then map_option ?g (map_of md nm) else map_of md nm')"
    by (simp only: map_of_map_key)
  moreover have "map_of (partitions (?g st)) i'
                   = (if i' = i then map_option (\<lambda>q. p) (map_of (partitions st) i)
                      else map_of (partitions st) i')" for st
    using map_of_map_key [of i "\<lambda>q. p" "partitions st" i'] by simp
  ultimately show ?thesis
    by (cases "map_of md nm") (auto simp: GetPartition_def split: option.splits)
qed

lemma AddPartition_exists:
  assumes "GetPartition md (Stream pp) (Id_p pp) = Some q"
  shows "AddPartition md pp rec = Inl ErrPartitionExists"
  using assms by (auto simp: AddPartition_def GetPartition_def Let_def split: option.splits)

lemma AddPartition_new:
  assumes "GetPartition md (Stream pp) (Id_p pp) = None"
  shows "\<exists>md1. AddPartition md pp rec
                 = Inr (\<lparr>Partition = pp, recovered = rec, started = \<not> rec\<rparr>, md1) \<and>
               (\<forall>nm i. GetPartition md1 nm i
                  = (if nm = Stream pp \<and> i = Id_p pp
                     then Some \<lparr>Partition = pp, recovered = rec, started = \<not> rec\<rparr>
                     else GetPartition md nm i))"
proof (cases "map_of md (Stream pp)")
  case None
  then show ?thesis
    by (auto simp: AddPartition_def GetPartition_def Let_def map_of_append_new
        simp del: map_of_append)
next
  case (Some st)
  then have none: "map_of (partitions st) (Id_p pp) = None"
    using assms by (simp add: GetPartition_def)
  let ?p = "\<lparr>Partition = pp, recovered = rec, started = \<not> rec\<rparr>"
  let ?g = "\<lambda>s. s\<lparr>partitions := partitions s @ [(Id_p pp, ?p)]\<rparr>"
  let ?md1 = "map (\<lambda>(k, s). if k = Stream pp then (k, ?g s) else (k, s)) md"
  have "AddPartition md pp rec = Inr (?p, ?md1)"
    using Some none by (simp add: AddPartition_def Let_def)
  moreover have "GetPartition ?md1 nm i
                  = (if nm = Stream pp \<and> i = Id_p pp then Some ?p else GetPartition md nm i)" for nm i
    using Some none
    by (simp add: GetPartition_def map_of_map_key map_of_append_new del: map_of_append)
  ultimately show ?thesis by blast
qed

lemma applyCreatePartition_exists:
  assumes "GetPartition md (Stream pp) (Id_p pp) = Some q"
  shows "applyCreatePartition md pp rec = (Some ErrPartitionExists, md)"
  using AddPartition_exists [OF assms] by (simp add: applyCreatePartition_def)

lemma applyCreatePartition_new:
  assumes "GetPartition md (Stream pp) (Id_p pp) = None"
  shows "fst (applyCreatePartition md pp rec) = None \<and>
         (\<forall>nm i. GetPartition (snd (applyCreatePartition md pp rec)) nm i
            = (if nm = Stream pp \<and> i = Id_p pp
               then Some \<lparr>Partition = pp, recovered = rec, started = \<not> rec\<rparr>
               else GetPartition md nm i))"
  using AddPartition_new [OF assms, of rec] by (auto simp: applyCreatePartition_def)

lemma apply_log_missing:
  assumes "target log = Some (strm, i)" "GetPartition md strm i = None"
  shows "apply_log md log e rec = (Inl (ErrNoSuchPartition strm i), md)"
  using assms
  by (cases log)
     (auto simp: applyShrinkISR_def applyExpandISR_def applyChangeStreamLeader_def)

lemma apply_log_mutation:
  assumes "target log = Some (strm, i)" "GetPartition md strm i = Some p"
  shows "apply_log md log e rec =
           (if GetEpoch p \<ge> e then (Inr None, md)
            else case mutation log p e of
              Inl err \<Rightarrow>
                (Inl (Wrap (case log of
                              ShrinkISROp a b c \<Rightarrow> ''failed to remove replica from ISR''
                            | ExpandISROp a b c \<Rightarrow> ''failed to add replica to ISR''
                            | other \<Rightarrow> ''failed to change partition leader'') err), md)
            | Inr p1 \<Rightarrow> (Inr None, putPartition md strm i (SetEpoch p1 e)))"
  using assms
  by (cases log)
     (auto simp: applyShrinkISR_def applyExpandISR_def applyChangeStreamLeader_def
        split: sum.splits)

subsection \<open>Operations on a partition that does not exist\<close>

text \<open>
  C2, as stated, fails. On an empty store, a ShrinkISR, an ExpandISR and a ChangeLeader
  entry each make \<open>Apply\<close> panic with the "No such partition" error: the
  \<open>ErrPartitionNotFound\<close> sentinel is not returned, and the state machine aborts.
\<close>

theorem Apply_missing_partition_counterexample:
  "GetPartition (metadata (srv [])) ''orders'' 0 = None \<and>
   fst (Apply (srv []) (entry_at 7 (ShrinkISROp ''orders'' ''n1'' 0)))
     = Panicked (ErrNoSuchPartition ''orders'' 0) \<and>
   fst (Apply (srv []) (entry_at 7 (ExpandISROp ''orders'' ''n1'' 0)))
     = Panicked (ErrNoSuchPartition ''orders'' 0) \<and>
   fst (Apply (srv []) (entry_at 7 (ChangeLeaderOp ''orders'' ''n1'' 0)))
     = Panicked (ErrNoSuchPartition ''orders'' 0)"
  by (simp add: Apply_def establishBarrier_def srv_def isRecovered_def isLastRecovered_def
      applyEntry_def entry_at_def applyShrinkISR_def applyExpandISR_def
      applyChangeStreamLeader_def GetPartition_def)

lemma establishBarrier_failed:
  "establishBarrier s l = Inl err \<longleftrightarrow>
     \<not> recoveryStarted s \<and> recoverLatestCommittedFSMLog s (Index_log l) = Inl err"
  by (auto simp: establishBarrier_def Let_def split: sum.splits)

text \<open>
  C2, amended. For every ShrinkISR, ExpandISR or ChangeLeader entry naming a (stream,
  partition) pair that is not in the store, the operation fails with the "No such
  partition" error, which is not the \<open>ErrPartitionNotFound\<close> sentinel. \<open>Apply\<close> never
  returns that sentinel for such an entry. If the barrier step fails, which can happen
  only on the first call after start, when the latest committed log entry cannot be
  recovered, \<open>Apply\<close> panics with the error of that step, also when the server is
  shutting down. Otherwise \<open>Apply\<close> panics with the "No such partition" error, so the
  state machine aborts, unless the server is shutting down, in which case \<open>Apply\<close>
  returns that error. In every case the store still has no such partition.
\<close>

theorem Apply_missing_partition:
  assumes "Data_log l = Inr log" "target log = Some (strm, i)"
    "GetPartition (metadata s) strm i = None"
  shows "apply_log (metadata s) log (Index_log l) rec
           = (Inl (ErrNoSuchPartition strm i), metadata s) \<and>
         fst (Apply s l)
           = (case establishBarrier s l of
                Inl err \<Rightarrow> Panicked err
              | Inr s1 \<Rightarrow>
                  if shutdown s then Returned (Some (ErrNoSuchPartition strm i))
                  else Panicked (ErrNoSuchPartition strm i)) \<and>
         (\<forall>err. establishBarrier s l = Inl err \<longleftrightarrow>
                  \<not> recoveryStarted s \<and>
                  recoverLatestCommittedFSMLog s (Index_log l) = Inl err) \<and>
         fst (Apply s l) \<noteq> Returned (Some ErrPartitionNotFound) \<and>
         GetPartition (metadata (snd (Apply s l))) strm i = None"
proof -
  have a: "apply_log (metadata s) log (Index_log l) r = (Inl (ErrNoSuchPartition strm i), metadata s)"
    for r
    using assms(2,3) by (rule apply_log_missing)
  have b: "\<forall>err. establishBarrier s l = Inl err \<longleftrightarrow>
                  \<not> recoveryStarted s \<and>
                  recoverLatestCommittedFSMLog s (Index_log l) = Inl err"
    by (simp add: establishBarrier_failed)
  show ?thesis
  proof (cases "establishBarrier s l")
    case (Inl err)
    then have "Apply s l = (Panicked err, s)"
      by (simp add: Apply_def)
    then show ?thesis using a b Inl assms(3) by simp
  next
    case (Inr s1)
    have "fst (Apply s l)
           = (if shutdown s then Returned (Some (ErrNoSuchPartition strm i))
              else Panicked (ErrNoSuchPartition strm i))"
      using Apply_result(1) [OF Inr assms(1)] a by simp
    moreover have "GetPartition (metadata (snd (Apply s l))) strm i = None"
      using Apply_result(2) [OF Inr assms(1)] a assms(3)
      by (simp add: Let_def GetPartition_startStreams)
    ultimately show ?thesis using a b Inr by simp
  qed
qed

theorem Apply_missing_partition_witness:
  "fst (Apply ((srv md3)\<lparr>shutdown := True\<rparr>) (entry_at 7 (ExpandISROp ''orders'' ''n1'' 1)))
     = Returned (Some (ErrNoSuchPartition ''orders'' 1)) \<and>
   GetPartition (metadata (snd (Apply ((srv md3)\<lparr>shutdown := True\<rparr>)
                                 (entry_at 7 (ExpandISROp ''orders'' ''n1'' 1))))) ''orders'' 1
     = None \<and>
   fst (Apply ((srv md3)\<lparr>shutdown := True, recoveryStarted := False,
                          raft := node5\<lparr>FirstIndex := Inl (IOError ''EIO'')\<rparr>\<rparr>)
              (entry_at 7 (ExpandISROp ''orders'' ''n1'' 1)))
     = Panicked (IOError ''EIO'')"
proof -
  let ?s = "(srv md3)\<lparr>shutdown := True\<rparr>"
  let ?s2 = "(srv md3)\<lparr>shutdown := True, recoveryStarted := False,
                         raft := node5\<lparr>FirstIndex := Inl (IOError ''EIO'')\<rparr>\<rparr>"
  let ?l = "entry_at 7 (ExpandISROp ''orders'' ''n1'' 1)"
  have d: "Data_log ?l = Inr (ExpandISROp ''orders'' ''n1'' 1)"
    by (simp add: entry_at_def)
  have t: "target (ExpandISROp ''orders'' ''n1'' 1) = Some (''orders'', 1)"
    by simp
  have g: "GetPartition (metadata ?s) ''orders'' 1 = None"
    "GetPartition (metadata ?s2) ''orders'' 1 = None"
    by (simp_all add: srv_def md3_def GetPartition_def)
  have e: "establishBarrier ?s ?l = Inr ?s"
    by (simp add: establishBarrier_def srv_def)
  have e2: "establishBarrier ?s2 ?l = Inl (IOError ''EIO'')"
    by (simp add: establishBarrier_def recoverLatestCommittedFSMLog_def srv_def node5_def
        ParseUint_def)
  have "shutdown ?s"
    by simp
  then show ?thesis
    using Apply_missing_partition [OF d t g(1)] Apply_missing_partition [OF d t g(2)] e e2
    by simp
qed

subsection \<open>CreatePartition\<close>

lemma Partition_StartRecovered: "Partition (snd (StartRecovered p)) = Partition p"
  by (simp add: StartRecovered_def)

text \<open>
  C3. Take a CreatePartition entry with index \<open>i\<close>, applied once the barrier step of
  \<open>Apply\<close> is over. If the store has no partition with the entry's (stream, id),
  \<open>Apply\<close> returns nil and the store then holds, under that key, the entry's partition
  with epoch and leader epoch both equal to \<open>i\<close>. If the store has such a partition
  already, \<open>apply\<close> hands \<open>ErrPartitionExists\<close> back as its value, not as its error,
  leaving the store as it is, and \<open>Apply\<close> returns that value; the existing
  partition keeps its metadata, and the whole store is unchanged unless the entry is the
  last recovered one (then the deferred \<open>finishedRecovery\<close> starts the recovered
  partitions).
\<close>

theorem CreatePartition_epochs:
  assumes "Data_log l = Inr (CreatePartitionOp pp)" "establishBarrier s l = Inr s1"
  shows "(GetPartition (metadata s) (Stream pp) (Id_p pp) = None \<longrightarrow>
            fst (Apply s l) = Returned None \<and>
            (\<exists>p. GetPartition (metadata (snd (Apply s l))) (Stream pp) (Id_p pp) = Some p \<and>
                 Partition p = pp\<lparr>LeaderEpoch := Index_log l, Epoch := Index_log l\<rparr> \<and>
                 Epoch (Partition p) = Index_log l \<and>
                 LeaderEpoch (Partition p) = Index_log l)) \<and>
         (\<forall>q. GetPartition (metadata s) (Stream pp) (Id_p pp) = Some q \<longrightarrow>
            apply_log (metadata s) (CreatePartitionOp pp) (Index_log l) rec
              = (Inr (Some ErrPartitionExists), metadata s) \<and>
            fst (Apply s l) = Returned (Some ErrPartitionExists) \<and>
            (\<exists>q1. GetPartition (metadata (snd (Apply s l))) (Stream pp) (Id_p pp) = Some q1 \<and>
                  Partition q1 = Partition q) \<and>
            (\<not> isLastRecovered s1 l \<longrightarrow> metadata (snd (Apply s l)) = metadata s))"
proof -
  let ?pp = "pp\<lparr>LeaderEpoch := Index_log l, Epoch := Index_log l\<rparr>"
  have key: "Stream ?pp = Stream pp" "Id_p ?pp = Id_p pp"
    by simp_all
  have new: "fst (Apply s l) = Returned None \<and>
            (\<exists>p. GetPartition (metadata (snd (Apply s l))) (Stream pp) (Id_p pp) = Some p \<and>
                 Partition p = ?pp \<and> Epoch (Partition p) = Index_log l \<and>
                 LeaderEpoch (Partition p) = Index_log l)"
    if none: "GetPartition (metadata s) (Stream pp) (Id_p pp) = None"
  proof -
    have n: "GetPartition (metadata s) (Stream ?pp) (Id_p ?pp) = None"
      using none by simp
    let ?r = "applyCreatePartition (metadata s) ?pp (isRecovered s1 l)"
    have r1: "fst ?r = None"
      and r2: "GetPartition (snd ?r) (Stream pp) (Id_p pp)
                 = Some \<lparr>Partition = ?pp, recovered = isRecovered s1 l,
                         started = \<not> isRecovered s1 l\<rparr>"
      using applyCreatePartition_new [OF n, of "isRecovered s1 l"] by simp_all
    have al: "apply_log (metadata s) (CreatePartitionOp pp) (Index_log l) (isRecovered s1 l)
                = (Inr None, snd ?r)"
      using r1 by (cases ?r) (simp add: Let_def)
    have "fst (Apply s l) = Returned None"
      using Apply_result(1) [OF assms(2,1)] al by simp
    moreover have "\<exists>p. GetPartition (metadata (snd (Apply s l))) (Stream pp) (Id_p pp) = Some p \<and>
                       Partition p = ?pp"
      using Apply_result(2) [OF assms(2,1)] al r2
      by (auto simp: Let_def GetPartition_startStreams Partition_StartRecovered)
    ultimately show ?thesis by auto
  qed
  have old: "apply_log (metadata s) (CreatePartitionOp pp) (Index_log l) rec
              = (Inr (Some ErrPartitionExists), metadata s) \<and>
            fst (Apply s l) = Returned (Some ErrPartitionExists) \<and>
            (\<exists>q1. GetPartition (metadata (snd (Apply s l))) (Stream pp) (Id_p pp) = Some q1 \<and>
                  Partition q1 = Partition q) \<and>
            (\<not> isLastRecovered s1 l \<longrightarrow> metadata (snd (Apply s l)) = metadata s)"
    if some: "GetPartition (metadata s) (Stream pp) (Id_p pp) = Some q" for q
  proof -
    have e: "GetPartition (metadata s) (Stream ?pp) (Id_p ?pp) = Some q"
      using some by simp
    have al: "apply_log (metadata s) (CreatePartitionOp pp) (Index_log l) r
                = (Inr (Some ErrPartitionExists), metadata s)" for r
      using applyCreatePartition_exists [OF e, of r] by (simp add: Let_def)
    have "fst (Apply s l) = Returned (Some ErrPartitionExists)"
      using Apply_result(1) [OF assms(2,1)] al by simp
    moreover have "\<exists>q1. GetPartition (metadata (snd (Apply s l))) (Stream pp) (Id_p pp) = Some q1 \<and>
                  Partition q1 = Partition q"
      using Apply_result(2) [OF assms(2,1)] al some
      by (auto simp: Let_def GetPartition_startStreams Partition_StartRecovered)
    moreover have "\<not> isLastRecovered s1 l \<longrightarrow> metadata (snd (Apply s l)) = metadata s"
      using Apply_result(2) [OF assms(2,1)] al by (simp add: Let_def)
    ultimately show ?thesis using al by simp
  qed
  show ?thesis
    using new old by blast
qed

theorem CreatePartition_epochs_witness:
  "Apply (srv []) (entry_at 3 (CreatePartitionOp pp0)) = (Returned None, srv md3) \<and>
   GetPartition md3 ''orders'' 0 = Some p3 \<and>
   Epoch (Partition p3) = 3 \<and> LeaderEpoch (Partition p3) = 3 \<and>
   Apply (srv md3) (entry_at 42 (CreatePartitionOp pp0))
     = (Returned (Some ErrPartitionExists), srv md3)"
proof -
  have a: "Apply (srv []) (entry_at 3 (CreatePartitionOp pp0)) = (Returned None, srv md3)"
    by (simp add: Apply_def establishBarrier_def srv_def isRecovered_def isLastRecovered_def
        applyEntry_def entry_at_def applyCreatePartition_def AddPartition_def pp0_def md3_def
        p3_def Let_def)
  have b: "Apply (srv md3) (entry_at 42 (CreatePartitionOp pp0))
     = (Returned (Some ErrPartitionExists), srv md3)"
    by (simp add: Apply_def establishBarrier_def srv_def isRecovered_def isLastRecovered_def
        applyEntry_def entry_at_def applyCreatePartition_def AddPartition_def pp0_def md3_def
        p3_def Let_def)
  have c: "GetPartition md3 ''orders'' 0 = Some p3"
    by (simp add: GetPartition_def md3_def)
  have d: "Data_log (entry_at 42 (CreatePartitionOp pp0)) = Inr (CreatePartitionOp pp0)"
    "Stream pp0 = ''orders''" "Id_p pp0 = 0"
    "establishBarrier (srv md3) (entry_at 42 (CreatePartitionOp pp0)) = Inr (srv md3)"
    "metadata (srv md3) = md3"
    by (simp_all add: entry_at_def pp0_def establishBarrier_def srv_def)
  have "Epoch (Partition p3) = 3 \<and> LeaderEpoch (Partition p3) = 3"
    by (simp add: p3_def)
  then show ?thesis
    using a b c d CreatePartition_epochs [OF d(1) d(4)]
    by simp
qed

subsection \<open>The epoch check of the ISR and leader operations\<close>

text \<open>
  C1, as stated, fails: an operation whose epoch is newer than the partition's is not
  always applied. ShrinkISR at epoch 7 for the replica n9, which is not a replica of the
  partition (epoch 3), fails: \<open>apply\<close> returns the error, the store is as before and the
  epoch is still 3.
\<close>

theorem ShrinkISR_unknown_replica_counterexample:
  "GetPartition md3 ''orders'' 0 = Some p3 \<and> GetEpoch p3 = 3 \<and>
   apply_log md3 (ShrinkISROp ''orders'' ''n9'' 0) 7 False
     = (Inl (Wrap ''failed to remove replica from ISR'' (ErrNotReplica ''n9'')), md3)"
  by (simp add: applyShrinkISR_def GetPartition_def RemoveFromISR_def GetEpoch_def pp0_def
      md3_def p3_def)

text \<open>
  C1, amended. For a ShrinkISR, ExpandISR or ChangeLeader operation carrying epoch \<open>e\<close>
  on a partition \<open>p\<close> of the store: if the epoch of \<open>p\<close> is at least \<open>e\<close>, the
  operation returns no error and leaves the store as it is. Otherwise the partition's own
  operation (RemoveFromISR, AddToISR, SetLeader) is tried. If it fails, which the ISR
  operations do for a replica that is not one of the partition's replicas, the operation
  returns the wrapped error and leaves the store as it is. If it succeeds, the changed
  partition is stored with its epoch set to \<open>e\<close>, every other partition staying as it
  is. So the epoch of a partition never decreases, and each operation that changes the
  partition raises its epoch strictly, to \<open>e\<close>.
\<close>

theorem epoch_guard:
  assumes "target log = Some (strm, i)" "GetPartition md strm i = Some p"
  shows "(GetEpoch p \<ge> e \<longrightarrow> apply_log md log e rec = (Inr None, md)) \<and>
         (GetEpoch p < e \<longrightarrow>
            (case mutation log p e of
               Inl err \<Rightarrow> (\<exists>msg. apply_log md log e rec = (Inl (Wrap msg err), md))
             | Inr p1 \<Rightarrow>
                 fst (apply_log md log e rec) = Inr None \<and>
                 (\<forall>nm j. GetPartition (snd (apply_log md log e rec)) nm j
                    = (if nm = strm \<and> j = i then Some (SetEpoch p1 e)
                       else GetPartition md nm j)) \<and>
                 GetEpoch (SetEpoch p1 e) = e \<and> GetEpoch p < GetEpoch (SetEpoch p1 e))) \<and>
         (\<forall>p2. GetPartition (snd (apply_log md log e rec)) strm i = Some p2 \<longrightarrow>
            GetEpoch p \<le> GetEpoch p2 \<and> (p2 \<noteq> p \<longrightarrow> GetEpoch p < GetEpoch p2 \<and> GetEpoch p2 = e))"
proof -
  note al = apply_log_mutation [OF assms, of e rec]
  have noop: "apply_log md log e rec = (Inr None, md)" if "GetEpoch p \<ge> e"
    using al that by simp
  have failed: "\<exists>msg. apply_log md log e rec = (Inl (Wrap msg err), md)"
    if "GetEpoch p < e" "mutation log p e = Inl err" for err
  proof -
    have "\<not> GetEpoch p \<ge> e" using that(1) by simp
    then show ?thesis using al that(2) by simp
  qed
  have applied: "fst (apply_log md log e rec) = Inr None \<and>
              (\<forall>nm j. GetPartition (snd (apply_log md log e rec)) nm j
                    = (if nm = strm \<and> j = i then Some (SetEpoch p1 e)
                       else GetPartition md nm j)) \<and>
              GetEpoch (SetEpoch p1 e) = e \<and> GetEpoch p < GetEpoch (SetEpoch p1 e)"
    if "GetEpoch p < e" "mutation log p e = Inr p1" for p1
  proof -
    have "\<not> GetEpoch p \<ge> e" using that(1) by simp
    then have "apply_log md log e rec = (Inr None, putPartition md strm i (SetEpoch p1 e))"
      using al that(2) by simp
    then show ?thesis
      using that(1) assms(2)
      by (simp add: GetPartition_putPartition GetEpoch_def SetEpoch_def)
  qed
  have mono: "GetEpoch p \<le> GetEpoch p2 \<and> (p2 \<noteq> p \<longrightarrow> GetEpoch p < GetEpoch p2 \<and> GetEpoch p2 = e)"
    if g: "GetPartition (snd (apply_log md log e rec)) strm i = Some p2" for p2
  proof (cases "GetEpoch p \<ge> e")
    case True
    then show ?thesis using noop g assms(2) by simp
  next
    case False
    then have lt: "GetEpoch p < e" by simp
    show ?thesis
    proof (cases "mutation log p e")
      case (Inl err)
      then show ?thesis using failed [OF lt Inl] g assms(2) by auto
    next
      case (Inr p1)
      then show ?thesis using applied [OF lt Inr] g by auto
    qed
  qed
  have A: "GetEpoch p \<ge> e \<longrightarrow> apply_log md log e rec = (Inr None, md)"
    using noop by simp
  have B: "GetEpoch p < e \<longrightarrow>
            (case mutation log p e of
               Inl err \<Rightarrow> (\<exists>msg. apply_log md log e rec = (Inl (Wrap msg err), md))
             | Inr p1 \<Rightarrow>
                 fst (apply_log md log e rec) = Inr None \<and>
                 (\<forall>nm j. GetPartition (snd (apply_log md log e rec)) nm j
                    = (if nm = strm \<and> j = i then Some (SetEpoch p1 e)
                       else GetPartition md nm j)) \<and>
                 GetEpoch (SetEpoch p1 e) = e \<and> GetEpoch p < GetEpoch (SetEpoch p1 e))"
  proof (cases "mutation log p e")
    case (Inl err)
    then show ?thesis using failed by simp
  next
    case (Inr p1)
    then show ?thesis using applied [of p1] by simp
  qed
  have C: "\<forall>p2. GetPartition (snd (apply_log md log e rec)) strm i = Some p2 \<longrightarrow>
            GetEpoch p \<le> GetEpoch p2 \<and> (p2 \<noteq> p \<longrightarrow> GetEpoch p < GetEpoch p2 \<and> GetEpoch p2 = e)"
    using mono by blast
  from A B C show ?thesis by (intro conjI)
qed

theorem epoch_guard_witness:
  "GetPartition md3 ''orders'' 0 = Some p3 \<and> GetEpoch p3 = 3 \<and>
   apply_log md3 (ShrinkISROp ''orders'' ''n2'' 0) 3 False = (Inr None, md3) \<and>
   apply_log md3 (ShrinkISROp ''orders'' ''n2'' 0) 7 False
     = (Inr None,
        [(''orders'',
          \<lparr>name = ''orders'',
            partitions = [(0, p3\<lparr>Partition := (Partition p3)\<lparr>Isr := [''n1''], Epoch := 7\<rparr>\<rparr>)]\<rparr>)]) \<and>
   apply_log md3 (ChangeLeaderOp ''orders'' ''n2'' 0) 7 False
     = (Inr None,
        [(''orders'',
          \<lparr>name = ''orders'',
            partitions = [(0, p3\<lparr>Partition := (Partition p3)\<lparr>Leader := ''n2'', LeaderEpoch := 7,
                                                            Epoch := 7\<rparr>\<rparr>)]\<rparr>)])"
proof -
  have g: "GetPartition md3 ''orders'' 0 = Some p3"
    by (simp add: GetPartition_def md3_def)
  have t: "target (ShrinkISROp ''orders'' ''n2'' 0) = Some (''orders'', 0)"
    by simp
  have e: "GetEpoch p3 = 3"
    by (simp add: GetEpoch_def p3_def)
  have "apply_log md3 (ShrinkISROp ''orders'' ''n2'' 0) 7 False
     = (Inr None,
        [(''orders'',
          \<lparr>name = ''orders'',
            partitions = [(0, p3\<lparr>Partition := (Partition p3)\<lparr>Isr := [''n1''], Epoch := 7\<rparr>\<rparr>)]\<rparr>)])"
    by (simp add: applyShrinkISR_def GetPartition_def RemoveFromISR_def GetEpoch_def
        SetEpoch_def putPartition_def pp0_def md3_def p3_def)
  moreover have "apply_log md3 (ChangeLeaderOp ''orders'' ''n2'' 0) 7 False
     = (Inr None,
        [(''orders'',
          \<lparr>name = ''orders'',
            partitions = [(0, p3\<lparr>Partition := (Partition p3)\<lparr>Leader := ''n2'', LeaderEpoch := 7,
                                                            Epoch := 7\<rparr>\<rparr>)]\<rparr>)])"
    by (simp add: applyChangeStreamLeader_def GetPartition_def SetLeader_def GetEpoch_def
        SetEpoch_def putPartition_def pp0_def md3_def p3_def)
  ultimately show ?thesis
    using g e epoch_guard [OF t g, of 3 False] by simp
qed

subsection \<open>The recovery barrier\<close>

lemma word_pred_le:
  fixes i k :: "64 word"
  assumes "i \<noteq> 0"
  shows "k \<le> i - 1 \<longleftrightarrow> k < i"
proof -
  have "0 < unat i"
    using assms by (simp add: unat_gt_0)
  then show ?thesis
    using assms by (auto simp: word_le_nat_alt word_less_nat_alt unat_minus_one)
qed

lemma scanLog_unfold:
  "scanLog rn a c f i =
     (if f \<noteq> 0 \<and> i \<ge> f then
        (if i = a \<and> a = c then Inr None
         else case GetLog rn i of
           Inl err \<Rightarrow> Inl err
         | Inr log \<Rightarrow>
            (if Type_log log = LogCommand then Inr (Some log)
             else scanLog rn a c f (i - 1)))
      else Inr None)"
  by (rule scanLog.simps)

declare scanLog.simps [simp del]

lemma scanLog_Some:
  assumes "scanLog rn a c f i = Inr (Some b)"
  shows "f \<noteq> 0 \<and> newestCommand rn f i b \<and> \<not> (a = c \<and> a = i)"
  using assms
proof (induction rn a c f i rule: scanLog.induct)
  case (1 rn a c f i)
  from "1.prems" have guard: "f \<noteq> 0" "f \<le> i" and na: "\<not> (i = a \<and> a = c)"
    by (auto simp: scanLog_unfold [of rn a c f i] split: if_splits)
  then have i0: "i \<noteq> 0"
    by (auto simp: word_le_nat_alt unat_eq_0)
  from "1.prems" guard na obtain lg where lg: "GetLog rn i = Inr lg"
    by (auto simp: scanLog_unfold [of rn a c f i] split: sum.splits)
  show ?case
  proof (cases "Type_log lg = LogCommand")
    case True
    then have "b = lg"
      using "1.prems" guard na lg by (simp add: scanLog_unfold [of rn a c f i])
    then have "newestCommand rn f i b"
      using guard lg True by (auto simp: newestCommand_def)
    then show ?thesis using guard na by auto
  next
    case False
    then have rec: "scanLog rn a c f (i - 1) = Inr (Some b)"
      using "1.prems" guard na lg by (simp add: scanLog_unfold [of rn a c f i])
    have ih: "f \<noteq> 0 \<and> newestCommand rn f (i - 1) b \<and> \<not> (a = c \<and> a = i - 1)"
      using "1.IH" [OF _ _ lg False rec] guard na by simp
    then obtain j where j: "f \<le> j" "j \<le> i - 1" "GetLog rn j = Inr b" "Type_log b = LogCommand"
      "\<forall>k. j < k \<and> k \<le> i - 1 \<longrightarrow> (\<exists>lg. GetLog rn k = Inr lg \<and> Type_log lg \<noteq> LogCommand)"
      by (auto simp: newestCommand_def)
    have ji: "j < i"
      using j(2) i0 by (simp add: word_pred_le)
    have "\<exists>lg. GetLog rn k = Inr lg \<and> Type_log lg \<noteq> LogCommand" if "j < k" "k \<le> i" for k
    proof (cases "k = i")
      case True
      then show ?thesis using lg False by simp
    next
      case False
      then have "k \<le> i - 1"
        using that(2) i0 by (simp add: word_pred_le)
      then show ?thesis using j(5) that(1) by blast
    qed
    then have "newestCommand rn f i b"
      using j ji unfolding newestCommand_def by (intro exI [of _ j]) auto
    then show ?thesis using guard na by auto
  qed
qed

lemma scanLog_None:
  assumes "scanLog rn a c f i = Inr None"
  shows "f = 0 \<or> i < f \<or> noCommand rn f i \<or>
         (a = c \<and> f \<le> a \<and> a \<le> i \<and>
          (\<forall>k. a < k \<and> k \<le> i \<longrightarrow> (\<exists>lg. GetLog rn k = Inr lg \<and> Type_log lg \<noteq> LogCommand)))"
  using assms
proof (induction rn a c f i rule: scanLog.induct)
  case (1 rn a c f i)
  show ?case
  proof (cases "f \<noteq> 0 \<and> f \<le> i")
    case False
    then show ?thesis by auto
  next
    case guard: True
    then have i0: "i \<noteq> 0"
      by (auto simp: word_le_nat_alt unat_eq_0)
    show ?thesis
    proof (cases "i = a \<and> a = c")
      case True
      then show ?thesis using guard by auto
    next
      case na: False
      from "1.prems" guard na obtain lg where lg: "GetLog rn i = Inr lg"
        by (auto simp: scanLog_unfold [of rn a c f i] split: sum.splits)
      have nc: "Type_log lg \<noteq> LogCommand"
        using "1.prems" guard na lg by (auto simp: scanLog_unfold [of rn a c f i] split: if_splits)
      then have rec: "scanLog rn a c f (i - 1) = Inr None"
        using "1.prems" guard na lg by (simp add: scanLog_unfold [of rn a c f i])
      have step: "\<exists>lg. GetLog rn k = Inr lg \<and> Type_log lg \<noteq> LogCommand"
        if "k \<le> i" "k \<le> i - 1 \<longrightarrow> (\<exists>lg. GetLog rn k = Inr lg \<and> Type_log lg \<noteq> LogCommand)" for k
      proof (cases "k = i")
        case True
        then show ?thesis using lg nc by simp
      next
        case False
        then have "k \<le> i - 1"
          using that(1) i0 by (simp add: word_pred_le)
        then show ?thesis using that(2) by blast
      qed
      from "1.IH" [OF guard na lg nc rec]
      consider "i - 1 < f" | "noCommand rn f (i - 1)"
        | "a = c \<and> f \<le> a \<and> a \<le> i - 1 \<and>
           (\<forall>k. a < k \<and> k \<le> i - 1 \<longrightarrow> (\<exists>lg. GetLog rn k = Inr lg \<and> Type_log lg \<noteq> LogCommand))"
        using guard by auto
      then show ?thesis
      proof cases
        case 1
        then have "\<not> f \<le> i - 1" by simp
        then have "\<not> f < i" using i0 by (simp add: word_pred_le)
        then have "f = i" using guard by auto
        then have "noCommand rn f i"
          using lg nc by (auto simp: noCommand_def)
        then show ?thesis by simp
      next
        case 2
        then have "noCommand rn f i"
          unfolding noCommand_def using step by blast
        then show ?thesis by simp
      next
        case 3
        then have "a \<le> i - 1" by blast
        then have "a < i" using i0 by (simp add: word_pred_le)
        then have "a \<le> i" by simp
        moreover have "\<forall>k. a < k \<and> k \<le> i \<longrightarrow> (\<exists>lg. GetLog rn k = Inr lg \<and> Type_log lg \<noteq> LogCommand)"
          using 3 step by blast
        ultimately show ?thesis using 3 by blast
      qed
    qed
  qed
qed

lemma recoverLatest_Some:
  assumes "recoverLatestCommittedFSMLog s a = Inr (Some b)"
  shows "\<exists>c f. ParseUint (commit_index (raft s)) = Inr c \<and> FirstIndex (raft s) = Inr f \<and>
               f \<noteq> 0 \<and> a \<noteq> c \<and> newestCommand (raft s) f c b"
proof -
  from assms obtain c f where cf: "ParseUint (commit_index (raft s)) = Inr c"
    "FirstIndex (raft s) = Inr f" "f \<noteq> 0" "scanLog (raft s) a c f c = Inr (Some b)"
    by (auto simp: recoverLatestCommittedFSMLog_def Let_def split: sum.splits if_splits)
  then show ?thesis
    using scanLog_Some [OF cf(4)] by auto
qed

lemma recoverLatest_None:
  assumes "recoverLatestCommittedFSMLog s a = Inr None"
  shows "\<exists>c f. ParseUint (commit_index (raft s)) = Inr c \<and> FirstIndex (raft s) = Inr f \<and>
               (f = 0 \<or> c < f \<or> a = c \<or> noCommand (raft s) f c)"
proof -
  from assms obtain c f where cf: "ParseUint (commit_index (raft s)) = Inr c"
    "FirstIndex (raft s) = Inr f" "f = 0 \<or> scanLog (raft s) a c f c = Inr None"
    by (auto simp: recoverLatestCommittedFSMLog_def Let_def split: sum.splits if_splits)
  then show ?thesis
    using scanLog_None [of "raft s" a c f c] by auto
qed

lemma establishBarrier_started:
  "recoveryStarted s \<Longrightarrow> establishBarrier s l = Inr s"
  by (simp add: establishBarrier_def)

lemma establishBarrier_first:
  assumes "\<not> recoveryStarted s" "establishBarrier s l = Inr s1"
  shows "recoverLatestCommittedFSMLog s (Index_log l) = Inr (latestRecoveredLog s1)"
  using assms
  by (auto simp: establishBarrier_def startedRecovery_def Let_def split: sum.splits if_splits)

lemma applyEntry_recovery_fields:
  "finishedRecoveries (snd (applyEntry s l rec)) = finishedRecoveries s"
  "latestRecoveredLog (snd (applyEntry s l rec)) = latestRecoveredLog s"
  "recoveryStarted (snd (applyEntry s l rec)) = recoveryStarted s"
  by (auto simp: applyEntry_def split: sum.splits prod.splits)

lemma finishedRecovery_started:
  "recoveryStarted (snd (finishedRecovery s)) = recoveryStarted s"
  by (auto simp: finishedRecovery_def Let_def split: prod.splits option.splits)

lemma not_recovered_after_start:
  assumes "GetPartition (snd (startStreams md)) nm i = Some p"
  shows "\<not> recovered p"
proof -
  have "\<not> recovered (snd (StartRecovered q))" for q
    by (simp add: StartRecovered_def)
  then show ?thesis
    using assms by (auto simp: GetPartition_startStreams)
qed

lemma Apply_recovery_fields:
  assumes "establishBarrier s l = Inr s1"
  shows "finishedRecoveries (snd (Apply s l))
           = (if isLastRecovered s1 l then Suc (finishedRecoveries s) else finishedRecoveries s)"
    and "latestRecoveredLog (snd (Apply s l))
           = (if isLastRecovered s1 l then None else latestRecoveredLog s1)"
    and "recoveryStarted (snd (Apply s l))"
  using assms establishBarrier_fields [OF assms]
  by (simp_all add: Apply_cases applyEntry_recovery_fields finishedRecovery_fields
      finishedRecovery_started)

lemma Apply_outcome:
  assumes "establishBarrier s l = Inr s1"
  shows "fst (Apply s l)
           = (case Data_log l of
                Inl err \<Rightarrow> Panicked err
              | Inr log \<Rightarrow>
                 (case fst (apply_log (metadata s) log (Index_log l) (isRecovered s1 l)) of
                    Inl err \<Rightarrow> if shutdown s then Returned (Some err) else Panicked err
                  | Inr v \<Rightarrow> Returned v))"
    and "metadata (snd (Apply s l))
           = (let md1 = (case Data_log l of
                           Inl err \<Rightarrow> metadata s
                         | Inr log \<Rightarrow>
                             snd (apply_log (metadata s) log (Index_log l) (isRecovered s1 l)))
              in if isLastRecovered s1 l then snd (startStreams md1) else md1)"
  using assms establishBarrier_fields [OF assms]
  by (auto simp: Apply_cases applyEntry_fields finishedRecovery_fields Let_def
      split: sum.splits)

lemma scanLog_finds:
  assumes "f \<noteq> 0" "a \<noteq> c \<or> i < c" "newestCommand rn f i b"
  shows "scanLog rn a c f i = Inr (Some b)"
  using assms
proof (induction rn a c f i rule: scanLog.induct)
  case (1 rn a c f i)
  from "1.prems"(3) obtain j where j: "f \<le> j" "j \<le> i" "GetLog rn j = Inr b"
    "Type_log b = LogCommand"
    "\<forall>k. j < k \<and> k \<le> i \<longrightarrow> (\<exists>lg. GetLog rn k = Inr lg \<and> Type_log lg \<noteq> LogCommand)"
    by (auto simp: newestCommand_def)
  have guard: "f \<noteq> 0 \<and> f \<le> i"
    using "1.prems"(1) j by auto
  then have i0: "i \<noteq> 0"
    by (auto simp: word_le_nat_alt unat_eq_0)
  have na: "\<not> (i = a \<and> a = c)"
    using "1.prems"(2) by auto
  show ?case
  proof (cases "j = i")
    case True
    then show ?thesis
      using guard na j by (simp add: scanLog_unfold [of rn a c f i])
  next
    case False
    then have ji: "j < i" using j(2) by simp
    then obtain lg where lg: "GetLog rn i = Inr lg" "Type_log lg \<noteq> LogCommand"
      using j(5) by blast
    have j1: "j \<le> i - 1"
      using ji i0 by (simp add: word_pred_le)
    have "i - 1 < i"
      using i0 by (simp add: word_pred_le [symmetric])
    then have a1: "a \<noteq> c \<or> i - 1 < c"
      using "1.prems"(2) by auto
    have "newestCommand rn f (i - 1) b"
      unfolding newestCommand_def
    proof (intro exI [of _ j] conjI allI impI)
      fix k assume "j < k \<and> k \<le> i - 1"
      then have "j < k \<and> k \<le> i"
        using i0 by (auto simp: word_pred_le)
      then show "\<exists>lg. GetLog rn k = Inr lg \<and> Type_log lg \<noteq> LogCommand"
        using j(5) by blast
    qed (use j j1 in auto)
    then have "scanLog rn a c f (i - 1) = Inr (Some b)"
      using "1.IH" [OF guard na lg "1.prems"(1) a1] by simp
    then show ?thesis
      using guard na lg by (simp add: scanLog_unfold [of rn a c f i])
  qed
qed

lemma scanLog_finds_none:
  assumes "f \<noteq> 0" "a \<noteq> c \<or> i < c" "noCommand rn f i"
  shows "scanLog rn a c f i = Inr None"
  using assms
proof (induction rn a c f i rule: scanLog.induct)
  case (1 rn a c f i)
  show ?case
  proof (cases "f \<le> i")
    case False
    then show ?thesis by (simp add: scanLog_unfold [of rn a c f i])
  next
    case True
    then have guard: "f \<noteq> 0 \<and> f \<le> i"
      using "1.prems"(1) by simp
    then have i0: "i \<noteq> 0"
      by (auto simp: word_le_nat_alt unat_eq_0)
    have na: "\<not> (i = a \<and> a = c)"
      using "1.prems"(2) by auto
    obtain lg where lg: "GetLog rn i = Inr lg" "Type_log lg \<noteq> LogCommand"
      using "1.prems"(3) True by (auto simp: noCommand_def)
    have "i - 1 < i"
      using i0 by (simp add: word_pred_le [symmetric])
    then have a1: "a \<noteq> c \<or> i - 1 < c"
      using "1.prems"(2) by auto
    have "noCommand rn f (i - 1)"
      using "1.prems"(3) i0 by (auto simp: noCommand_def word_pred_le)
    then have "scanLog rn a c f (i - 1) = Inr None"
      using "1.IH" [OF guard na lg "1.prems"(1) a1] by simp
    then show ?thesis
      using guard na lg by (simp add: scanLog_unfold [of rn a c f i])
  qed
qed

lemma recoverLatest_complete:
  assumes "ParseUint (commit_index (raft s)) = Inr c" "FirstIndex (raft s) = Inr f"
  shows "f = 0 \<or> c < f \<or> a = c \<or> noCommand (raft s) f c
           \<Longrightarrow> recoverLatestCommittedFSMLog s a = Inr None"
    and "f \<noteq> 0 \<Longrightarrow> a \<noteq> c \<Longrightarrow> newestCommand (raft s) f c b
           \<Longrightarrow> recoverLatestCommittedFSMLog s a = Inr (Some b)"
proof -
  have r: "recoverLatestCommittedFSMLog s a
             = (if f = 0 then Inr None else scanLog (raft s) a c f c)"
    using assms by (simp add: recoverLatestCommittedFSMLog_def Let_def)
  show "recoverLatestCommittedFSMLog s a = Inr None"
    if "f = 0 \<or> c < f \<or> a = c \<or> noCommand (raft s) f c"
  proof (cases "f = 0 \<or> c < f \<or> a = c")
    case True
    have "scanLog (raft s) a c f c = Inr None" if "c < f \<or> a = c"
    proof (cases "f \<le> c")
      case True
      then have "a = c" using that by auto
      then show ?thesis
        by (subst scanLog_unfold) simp
    next
      case False
      then show ?thesis
        by (subst scanLog_unfold) simp
    qed
    then show ?thesis
      using r True by (cases "f = 0") auto
  next
    case False
    then have "noCommand (raft s) f c" using that by blast
    then show ?thesis
      using r False scanLog_finds_none [of f a c c "raft s"] by auto
  qed
  show "recoverLatestCommittedFSMLog s a = Inr (Some b)"
    if "f \<noteq> 0" "a \<noteq> c" "newestCommand (raft s) f c b"
    using r that scanLog_finds [of f a c c "raft s" b] by auto
qed

text \<open>
  C5, as stated, fails: the barrier is not the newest committed command below the entry
  being applied. On a node whose log holds the commands 1 to 5, all committed
  (\<open>commit_index\<close> 5), the first \<open>Apply\<close> after start, of entry 2, records entry 5 as
  the barrier, although 5 is not below 2 and entry 1 is a committed command below 2. And
  the first \<open>Apply\<close> after start, of entry 5 itself, records no barrier, although the
  committed command 4 is below 5.
\<close>

theorem recovery_barrier_counterexample:
  "latestRecoveredLog (snd (Apply srv_start (entry_at 2 (DeleteStreamOp ''none''))))
     = Some (entry_at 5 (DeleteStreamOp ''none'')) \<and>
   \<not> Index_log (entry_at 5 (DeleteStreamOp ''none'')) < 2 \<and>
   GetLog (raft srv_start) 1 = Inr (entry_at 1 (DeleteStreamOp ''none'')) \<and>
   Type_log (entry_at 1 (DeleteStreamOp ''none'')) = LogCommand \<and>
   latestRecoveredLog (snd (Apply srv_start (entry_at 5 (DeleteStreamOp ''none'')))) = None \<and>
   GetLog (raft srv_start) 4 = Inr (entry_at 4 (DeleteStreamOp ''none''))"
  by (simp add: Apply_def establishBarrier_def recoverLatestCommittedFSMLog_def
      ParseUint_def srv_start_def srv_def node5_def scanLog_unfold isRecovered_def
      isLastRecovered_def applyEntry_def entry_at_def applyDeleteStream_def GetStream_def
      startedRecovery_def Let_def)

text \<open>
  C5, amended. On the first \<open>Apply\<close> after process start the state machine scans the
  consensus log backwards from \<open>commit_index\<close> to \<open>first_index\<close> and records as the
  recovery barrier the newest command entry at or below \<open>commit_index\<close>; it records no
  barrier when the log is empty (\<open>first_index\<close> is 0), when \<open>commit_index\<close> is below
  \<open>first_index\<close>, when the entry being applied is itself at \<open>commit_index\<close>, or when
  the scanned range holds no command. If \<open>commit_index\<close>, the first index or an entry
  met by the scan cannot be read, \<open>Apply\<close> panics with that error and changes nothing.
  On later calls the barrier is left as it is. Every entry whose index is at most the
  index of the recorded barrier is applied with \<open>recovered = true\<close>, every other entry
  with \<open>recovered = false\<close>; \<open>finishedRecovery\<close> is called exactly in the call that
  applies an entry at the barrier's index, after the entry itself, and then no partition
  is left waiting to be started and the barrier is cleared, so that all later entries are
  applied normally; with no barrier, all entries are applied normally.
\<close>

theorem recovery_barrier:
  "(case establishBarrier s l of
      Inl err \<Rightarrow>
        \<not> recoveryStarted s \<and> recoverLatestCommittedFSMLog s (Index_log l) = Inl err \<and>
        Apply s l = (Panicked err, s)
    | Inr s1 \<Rightarrow>
        (recoveryStarted s \<longrightarrow> s1 = s) \<and>
        (\<not> recoveryStarted s \<longrightarrow>
           (\<exists>c f. ParseUint (commit_index (raft s)) = Inr c \<and> FirstIndex (raft s) = Inr f \<and>
              (case latestRecoveredLog s1 of
                 None \<Rightarrow> f = 0 \<or> c < f \<or> Index_log l = c \<or> noCommand (raft s) f c
               | Some b \<Rightarrow> f \<noteq> 0 \<and> Index_log l \<noteq> c \<and> newestCommand (raft s) f c b))) \<and>
        isRecovered s1 l
          = (\<exists>b. latestRecoveredLog s1 = Some b \<and> Index_log l \<le> Index_log b) \<and>
        isLastRecovered s1 l
          = (\<exists>b. latestRecoveredLog s1 = Some b \<and> Index_log l = Index_log b) \<and>
        fst (Apply s l)
          = (case Data_log l of
               Inl err \<Rightarrow> Panicked err
             | Inr log \<Rightarrow>
                (case fst (apply_log (metadata s) log (Index_log l) (isRecovered s1 l)) of
                   Inl err \<Rightarrow> if shutdown s then Returned (Some err) else Panicked err
                 | Inr v \<Rightarrow> Returned v)) \<and>
        metadata (snd (Apply s l))
          = (let md1 = (case Data_log l of
                          Inl err \<Rightarrow> metadata s
                        | Inr log \<Rightarrow>
                            snd (apply_log (metadata s) log (Index_log l) (isRecovered s1 l)))
             in if isLastRecovered s1 l then snd (startStreams md1) else md1) \<and>
        (isLastRecovered s1 l \<longrightarrow>
           (\<forall>nm i p. GetPartition (metadata (snd (Apply s l))) nm i = Some p
              \<longrightarrow> \<not> recovered p)) \<and>
        finishedRecoveries (snd (Apply s l))
          = (if isLastRecovered s1 l then Suc (finishedRecoveries s)
             else finishedRecoveries s) \<and>
        latestRecoveredLog (snd (Apply s l))
          = (if isLastRecovered s1 l then None else latestRecoveredLog s1) \<and>
        recoveryStarted (snd (Apply s l))) \<and>
   (\<not> recoveryStarted s \<and> ParseUint (commit_index (raft s)) = Inr c \<and>
    FirstIndex (raft s) = Inr f \<longrightarrow>
      (f = 0 \<or> c < f \<or> Index_log l = c \<or> noCommand (raft s) f c \<longrightarrow>
         (\<exists>s1. establishBarrier s l = Inr s1 \<and> latestRecoveredLog s1 = None)) \<and>
      (f \<noteq> 0 \<and> Index_log l \<noteq> c \<and> newestCommand (raft s) f c b \<longrightarrow>
         (\<exists>s1. establishBarrier s l = Inr s1 \<and> latestRecoveredLog s1 = Some b)))"
proof -
  have first: "(case establishBarrier s l of
      Inl err \<Rightarrow>
        \<not> recoveryStarted s \<and> recoverLatestCommittedFSMLog s (Index_log l) = Inl err \<and>
        Apply s l = (Panicked err, s)
    | Inr s1 \<Rightarrow>
        (recoveryStarted s \<longrightarrow> s1 = s) \<and>
        (\<not> recoveryStarted s \<longrightarrow>
           (\<exists>c f. ParseUint (commit_index (raft s)) = Inr c \<and> FirstIndex (raft s) = Inr f \<and>
              (case latestRecoveredLog s1 of
                 None \<Rightarrow> f = 0 \<or> c < f \<or> Index_log l = c \<or> noCommand (raft s) f c
               | Some b \<Rightarrow> f \<noteq> 0 \<and> Index_log l \<noteq> c \<and> newestCommand (raft s) f c b))) \<and>
        isRecovered s1 l
          = (\<exists>b. latestRecoveredLog s1 = Some b \<and> Index_log l \<le> Index_log b) \<and>
        isLastRecovered s1 l
          = (\<exists>b. latestRecoveredLog s1 = Some b \<and> Index_log l = Index_log b) \<and>
        fst (Apply s l)
          = (case Data_log l of
               Inl err \<Rightarrow> Panicked err
             | Inr log \<Rightarrow>
                (case fst (apply_log (metadata s) log (Index_log l) (isRecovered s1 l)) of
                   Inl err \<Rightarrow> if shutdown s then Returned (Some err) else Panicked err
                 | Inr v \<Rightarrow> Returned v)) \<and>
        metadata (snd (Apply s l))
          = (let md1 = (case Data_log l of
                          Inl err \<Rightarrow> metadata s
                        | Inr log \<Rightarrow>
                            snd (apply_log (metadata s) log (Index_log l) (isRecovered s1 l)))
             in if isLastRecovered s1 l then snd (startStreams md1) else md1) \<and>
        (isLastRecovered s1 l \<longrightarrow>
           (\<forall>nm i p. GetPartition (metadata (snd (Apply s l))) nm i = Some p
              \<longrightarrow> \<not> recovered p)) \<and>
        finishedRecoveries (snd (Apply s l))
          = (if isLastRecovered s1 l then Suc (finishedRecoveries s)
             else finishedRecoveries s) \<and>
        latestRecoveredLog (snd (Apply s l))
          = (if isLastRecovered s1 l then None else latestRecoveredLog s1) \<and>
        recoveryStarted (snd (Apply s l)))"
  proof (cases "establishBarrier s l")
    case (Inl err)
    then have "\<not> recoveryStarted s \<and> recoverLatestCommittedFSMLog s (Index_log l) = Inl err"
      by (simp add: establishBarrier_failed)
    moreover have "Apply s l = (Panicked err, s)"
      using Inl by (simp add: Apply_def)
    ultimately show ?thesis using Inl by simp
  next
    case (Inr s1)
    have a: "recoveryStarted s \<longrightarrow> s1 = s"
      using Inr by (auto simp: establishBarrier_started)
    have b: "\<exists>c f. ParseUint (commit_index (raft s)) = Inr c \<and> FirstIndex (raft s) = Inr f \<and>
              (case latestRecoveredLog s1 of
                 None \<Rightarrow> f = 0 \<or> c < f \<or> Index_log l = c \<or> noCommand (raft s) f c
               | Some b \<Rightarrow> f \<noteq> 0 \<and> Index_log l \<noteq> c \<and> newestCommand (raft s) f c b)"
      if "\<not> recoveryStarted s"
    proof (cases "latestRecoveredLog s1")
      case None
      then show ?thesis
        using recoverLatest_None [of s "Index_log l"] establishBarrier_first [OF that Inr]
        by simp
    next
      case (Some b)
      then show ?thesis
        using recoverLatest_Some [of s "Index_log l" b] establishBarrier_first [OF that Inr]
        by simp
    qed
    have c: "isRecovered s1 l
               = (\<exists>b. latestRecoveredLog s1 = Some b \<and> Index_log l \<le> Index_log b)"
      "isLastRecovered s1 l
               = (\<exists>b. latestRecoveredLog s1 = Some b \<and> Index_log l = Index_log b)"
      by (auto simp: isRecovered_def isLastRecovered_def split: option.splits)
    have d: "isLastRecovered s1 l \<longrightarrow>
           (\<forall>nm i p. GetPartition (metadata (snd (Apply s l))) nm i = Some p
              \<longrightarrow> \<not> recovered p)"
      using Apply_outcome(2) [OF Inr] not_recovered_after_start
      by (auto simp: Let_def)
    show ?thesis
      using Inr a b c d Apply_outcome [OF Inr] Apply_recovery_fields [OF Inr]
      by (simp only: sum.case) blast
  qed
  have second: "(f = 0 \<or> c < f \<or> Index_log l = c \<or> noCommand (raft s) f c \<longrightarrow>
         (\<exists>s1. establishBarrier s l = Inr s1 \<and> latestRecoveredLog s1 = None)) \<and>
      (f \<noteq> 0 \<and> Index_log l \<noteq> c \<and> newestCommand (raft s) f c b \<longrightarrow>
         (\<exists>s1. establishBarrier s l = Inr s1 \<and> latestRecoveredLog s1 = Some b))"
    if h: "\<not> recoveryStarted s" "ParseUint (commit_index (raft s)) = Inr c"
      "FirstIndex (raft s) = Inr f"
  proof -
    have "\<exists>s1. establishBarrier s l = Inr s1 \<and> latestRecoveredLog s1 = lc"
      if "recoverLatestCommittedFSMLog s (Index_log l) = Inr lc" for lc
      using that h(1) by (simp add: establishBarrier_def startedRecovery_def Let_def)
    then show ?thesis
      using recoverLatest_complete(1) [OF h(2,3), of "Index_log l"]
        recoverLatest_complete(2) [OF h(2,3), of "Index_log l" b]
      by blast
  qed
  show ?thesis
    using first second by blast
qed

theorem recovery_barrier_witness:
  "establishBarrier srv_start (entry_at 2 (DeleteStreamOp ''none''))
     = Inr (srv_start\<lparr>latestRecoveredLog := Some (entry_at 5 (DeleteStreamOp ''none'')),
                       recoveryStarted := True\<rparr>) \<and>
   newestCommand (raft srv_start) 1 5 (entry_at 5 (DeleteStreamOp ''none'')) \<and>
   isRecovered (srv_start\<lparr>latestRecoveredLog := Some (entry_at 5 (DeleteStreamOp ''none'')),
                          recoveryStarted := True\<rparr>) (entry_at 2 (DeleteStreamOp ''none'')) \<and>
   fst (Apply srv_start (entry_at 2 (DeleteStreamOp ''none''))) = Returned (Some ErrStreamNotFound) \<and>
   finishedRecoveries (snd (Apply srv_start (entry_at 2 (DeleteStreamOp ''none'')))) = 0 \<and>
   finishedRecoveries
     (snd (Apply (srv_start\<lparr>latestRecoveredLog := Some (entry_at 5 (DeleteStreamOp ''none'')),
                              recoveryStarted := True\<rparr>)
                 (entry_at 5 (DeleteStreamOp ''none'')))) = 1 \<and>
   latestRecoveredLog
     (snd (Apply (srv_start\<lparr>latestRecoveredLog := Some (entry_at 5 (DeleteStreamOp ''none'')),
                              recoveryStarted := True\<rparr>)
                 (entry_at 5 (DeleteStreamOp ''none'')))) = None"
proof -
  let ?e5 = "entry_at 5 (DeleteStreamOp ''none'')"
  let ?l2 = "entry_at 2 (DeleteStreamOp ''none'')"
  let ?sB = "srv_start\<lparr>latestRecoveredLog := Some ?e5, recoveryStarted := True\<rparr>"
  have eb: "establishBarrier srv_start ?l2 = Inr ?sB"
    by (simp add: establishBarrier_def recoverLatestCommittedFSMLog_def ParseUint_def
        srv_start_def srv_def node5_def scanLog_unfold entry_at_def startedRecovery_def
        Let_def)
  have eb5: "establishBarrier ?sB ?e5 = Inr ?sB"
    by (simp add: establishBarrier_def)
  have raft: "ParseUint (commit_index (raft srv_start)) = Inr 5"
    "FirstIndex (raft srv_start) = Inr 1" "\<not> recoveryStarted srv_start"
    by (simp_all add: ParseUint_def srv_start_def srv_def node5_def)
  have flags: "isRecovered ?sB ?l2" "\<not> isLastRecovered ?sB ?l2" "isLastRecovered ?sB ?e5"
    by (simp_all add: isRecovered_def isLastRecovered_def entry_at_def)
  have ap: "apply_log (metadata srv_start) (DeleteStreamOp ''none'') 2 True
              = (Inr (Some ErrStreamNotFound), [])"
    by (simp add: applyDeleteStream_def GetStream_def srv_start_def srv_def)
  have fields: "Data_log ?l2 = Inr (DeleteStreamOp ''none'')" "Index_log ?l2 = 2"
    "finishedRecoveries srv_start = 0" "finishedRecoveries ?sB = 0" "\<not> shutdown srv_start"
    "latestRecoveredLog ?sB = Some ?e5"
    by (simp_all add: entry_at_def srv_start_def srv_def)
  show ?thesis
    using recovery_barrier [of srv_start ?l2] recovery_barrier [of ?sB ?e5]
      eb eb5 raft flags ap fields
    by simp
qed

subsection \<open>Snapshots\<close>

lemma restorePartitions_lookup:
  assumes "distinct (map (\<lambda>pp. (Stream pp, Id_p pp)) pps)"
    "\<forall>pp \<in> set pps. GetPartition md (Stream pp) (Id_p pp) = None"
  shows "\<exists>md1. restorePartitions md pps = (None, md1) \<and>
           (\<forall>nm i. GetPartition md1 nm i
              = (case find (\<lambda>pp. Stream pp = nm \<and> Id_p pp = i) pps of
                   Some pp \<Rightarrow> Some \<lparr>Partition = pp, recovered = False, started = True\<rparr>
                 | None \<Rightarrow> GetPartition md nm i))"
  using assms
proof (induction pps arbitrary: md)
  case Nil
  then show ?case by simp
next
  case (Cons pp pps)
  have none: "GetPartition md (Stream pp) (Id_p pp) = None"
    using Cons.prems(2) by simp
  let ?md1 = "snd (applyCreatePartition md pp False)"
  have a1: "fst (applyCreatePartition md pp False) = None"
    and a2: "\<And>nm i. GetPartition ?md1 nm i
               = (if nm = Stream pp \<and> i = Id_p pp
                  then Some \<lparr>Partition = pp, recovered = False, started = \<not> False\<rparr>
                  else GetPartition md nm i)"
    using applyCreatePartition_new [OF none, of False] by auto
  have step: "restorePartitions md (pp # pps) = restorePartitions ?md1 pps"
    using a1 by (cases "applyCreatePartition md pp False") simp
  have d: "distinct (map (\<lambda>pp. (Stream pp, Id_p pp)) pps)"
    using Cons.prems(1) by simp
  have fresh: "\<forall>q \<in> set pps. \<not> (Stream q = Stream pp \<and> Id_p q = Id_p pp)"
    using Cons.prems(1) by (auto simp: image_iff)
  have n: "\<forall>q \<in> set pps. GetPartition ?md1 (Stream q) (Id_p q) = None"
    using Cons.prems(2) fresh by (auto simp: a2)
  obtain md2 where r: "restorePartitions ?md1 pps = (None, md2)"
    and l: "\<And>nm i. GetPartition md2 nm i
              = (case find (\<lambda>pp. Stream pp = nm \<and> Id_p pp = i) pps of
                   Some pp \<Rightarrow> Some \<lparr>Partition = pp, recovered = False, started = True\<rparr>
                 | None \<Rightarrow> GetPartition ?md1 nm i)"
    using Cons.IH [OF d n] by blast
  have "GetPartition md2 nm i
              = (case find (\<lambda>pp. Stream pp = nm \<and> Id_p pp = i) (pp # pps) of
                   Some pp \<Rightarrow> Some \<lparr>Partition = pp, recovered = False, started = True\<rparr>
                 | None \<Rightarrow> GetPartition md nm i)" for nm i
  proof (cases "Stream pp = nm \<and> Id_p pp = i")
    case True
    then have "find (\<lambda>q. Stream q = nm \<and> Id_p q = i) pps = None"
      using fresh by (auto simp: find_None_iff)
    then show ?thesis
      using True l [of nm i] a2 [of nm i] by auto
  next
    case False
    then show ?thesis
      using l [of nm i] a2 [of nm i] by (auto split: option.splits)
  qed
  then show ?case
    using step r by auto
qed

lemma find_append:
  "find P (xs @ ys) = (case find P xs of None \<Rightarrow> find P ys | Some x \<Rightarrow> Some x)"
  by (induction xs) auto

lemma find_stream_partitions:
  assumes "\<forall>ip \<in> set ps. Stream (Partition (snd ip)) = k \<and> Id_p (Partition (snd ip)) = fst ip"
  shows "find (\<lambda>pp. Stream pp = nm \<and> Id_p pp = i) (map Partition (map snd ps))
           = (if nm = k then map_option Partition (map_of ps i) else None)"
  using assms
proof (induction ps)
  case Nil
  then show ?case by simp
next
  case (Cons x ps)
  then show ?case by (cases x) auto
qed

lemma Snapshot_Cons:
  "Partitions (Snapshot ((k, st) # md))
     = map Partition (map snd (partitions st)) @ Partitions (Snapshot md)"
  by (simp add: Snapshot_def GetStreams_def GetPartitions_def)

lemma Snapshot_find:
  assumes "wf_store md"
  shows "find (\<lambda>pp. Stream pp = nm \<and> Id_p pp = i) (Partitions (Snapshot md))
           = map_option Partition (GetPartition md nm i)"
  using assms
proof (induction md)
  case Nil
  then show ?case by (simp add: Snapshot_def GetStreams_def GetPartition_def)
next
  case (Cons x md)
  obtain k st where x: "x = (k, st)" by (cases x)
  have ok: "stream_ok k st" and wf: "wf_store md" and k: "k \<notin> fst ` set md"
    using Cons.prems x by (auto simp: wf_store_def)
  have f: "find (\<lambda>pp. Stream pp = nm \<and> Id_p pp = i) (map Partition (map snd (partitions st)))
             = (if nm = k then map_option Partition (map_of (partitions st) i) else None)"
    using ok by (intro find_stream_partitions) (simp add: stream_ok_def)
  have other: "GetPartition md k i = None"
    using k by (simp add: GetPartition_def map_of_eq_None_iff [THEN iffD2])
  show ?case
  proof (cases "nm = k")
    case True
    then show ?thesis
      using f Cons.IH [OF wf] other x
      by (auto simp: Snapshot_Cons find_append GetPartition_def split: option.splits)
  next
    case False
    then show ?thesis
      using f Cons.IH [OF wf] x
      by (auto simp: Snapshot_Cons find_append GetPartition_def split: option.splits)
  qed
qed

lemma Snapshot_keys:
  assumes "wf_store md"
  shows "distinct (map (\<lambda>pp. (Stream pp, Id_p pp)) (Partitions (Snapshot md)))"
    and "Stream ` set (Partitions (Snapshot md)) = fst ` set md"
  using assms
proof (induction md)
  case Nil
  {
    case 1
    then show ?case by (simp add: Snapshot_def GetStreams_def)
  next
    case 2
    then show ?case by (simp add: Snapshot_def GetStreams_def)
  }
next
  case (Cons x md)
  obtain k st where x: "x = (k, st)" by (cases x)
  {
    case 1
    then have ok: "stream_ok k st" and wf: "wf_store md" and k: "k \<notin> fst ` set md"
      using x by (auto simp: wf_store_def)
    have keys: "map ((\<lambda>pp. (Stream pp, Id_p pp)) \<circ> (Partition \<circ> snd)) (partitions st)
                  = map (\<lambda>ip. (k, fst ip)) (partitions st)"
      using ok by (auto simp: stream_ok_def)
    have "distinct (map (\<lambda>ip. (k, fst ip)) (partitions st))"
      using ok by (simp add: stream_ok_def distinct_map inj_on_def)
    then have d: "distinct (map ((\<lambda>pp. (Stream pp, Id_p pp)) \<circ> (Partition \<circ> snd)) (partitions st))"
      by (simp only: keys)
    have s: "Stream ` set (Partitions (Snapshot md)) = fst ` set md"
      using Cons.IH(2) [OF wf] .
    have disj: "\<forall>pp \<in> set (Partitions (Snapshot md)). Stream pp \<noteq> k"
      using s k by auto
    have here: "\<forall>ip \<in> set (partitions st). Stream (Partition (snd ip)) = k"
      using ok by (simp add: stream_ok_def)
    show ?case
      using d Cons.IH(1) [OF wf] disj here x
      by (auto simp: Snapshot_Cons)
  next
    case 2
    then have ok: "stream_ok k st" and wf: "wf_store md"
      using x by (auto simp: wf_store_def)
    have "Stream ` set (map Partition (map snd (partitions st))) = {k}"
      using ok by (cases "partitions st") (auto simp: stream_ok_def)
    then show ?case
      using Cons.IH(2) [OF wf] x by (simp add: Snapshot_Cons image_Un)
  }
qed

lemma Uint32_PutUint32: "Uint32 (PutUint32 v) = v"
  unfolding PutUint32_def Uint32.simps
  apply (rule bit_word_eqI)
  subgoal for n
    apply (cases "n < 8"; cases "n < 16"; cases "n < 24")
           apply (auto simp: bit_simps not_less)
    done
  done

lemma unat_of_nat_length:
  "n < 2 ^ 32 \<Longrightarrow> unat (of_nat n :: 32 word) = n"
  by (simp add: unat_of_nat)

lemma split32:
  fixes n :: nat
  shows "n = (n div 2 ^ 24) * 2 ^ 24 + (n div 2 ^ 16 mod 256) * 2 ^ 16
               + (n div 2 ^ 8 mod 256) * 2 ^ 8 + n mod 256"
proof -
  define a where "a = n div 256"
  define b where "b = a div 256"
  define c where "c = b div 256"
  have n: "n = a * 256 + n mod 256"
    by (simp add: a_def)
  have a: "a = b * 256 + a mod 256"
    by (simp add: b_def)
  have b: "b = c * 256 + b mod 256"
    by (simp add: c_def)
  have b2: "n div 2 ^ 16 = b"
    using div_mult2_eq [of n 256 256] by (simp add: a_def b_def)
  have c2: "n div 2 ^ 24 = c"
    using div_mult2_eq [of n 65536 256] b2 by (simp add: c_def)
  have "n = ((c * 256 + b mod 256) * 256 + a mod 256) * 256 + n mod 256"
    using n a b by simp
  also have "\<dots> = c * 2 ^ 24 + (b mod 256) * 2 ^ 16 + (a mod 256) * 2 ^ 8 + n mod 256"
    by (simp add: algebra_simps)
  finally show ?thesis
    using b2 c2 by (simp add: a_def)
qed

lemma PutUint32_big_endian:
  "\<exists>b0 b1 b2 b3. PutUint32 v = [b0, b1, b2, b3] \<and>
     unat v = unat b0 * 2 ^ 24 + unat b1 * 2 ^ 16 + unat b2 * 2 ^ 8 + unat b3"
proof -
  have "unat v < 2 ^ 32"
    using unsigned_less [of v] by simp
  then have "unat v div 16777216 < 256"
    by (simp add: less_mult_imp_div_less)
  then have top: "unat v div 16777216 mod 256 = unat v div 16777216"
    by simp
  from split32 [of "unat v"] top show ?thesis
    by (simp add: PutUint32_def unat_drop_bit_eq drop_bit_eq_div unsigned_ucast_eq take_bit_eq_mod unat_div)
qed

lemma length_PutUint32: "length (PutUint32 v) = 4"
  by (simp add: PutUint32_def)

lemma Persist_written:
  assumes "Marshal f = Inr b" "snd (sizeWrite io) = None" "snd (dataWrite io) = None"
    "sinkClose io = None"
  shows "Persist f Marshal snk io
           = (None, snk\<lparr>written := written snk @ PutUint32 (of_nat (length b)) @ b,
                          sinkClosed := True\<rparr>)"
  using assms
  by (cases "sizeWrite io"; cases "dataWrite io") (simp add: Persist_def Let_def)

lemma ReadFull_append: "ReadFull (xs @ ys) (length xs) = Inr (xs, ys)"
  by (simp add: ReadFull_def)

lemma Restore_bytes:
  assumes "length b < 2 ^ 32" "Unmarshal b = Inr snap"
  shows "Restore md0 (PutUint32 (of_nat (length b)) @ b @ rest) Unmarshal
           = restorePartitions [] (Partitions snap)"
proof -
  have r1: "ReadFull (PutUint32 (of_nat (length b)) @ b @ rest) 4
              = Inr (PutUint32 (of_nat (length b)), b @ rest)"
    using ReadFull_append [of "PutUint32 (of_nat (length b))" "b @ rest"]
    by (simp only: length_PutUint32)
  have n: "unat (Uint32 (PutUint32 (of_nat (length b)))) = length b"
    using assms(1) by (simp only: Uint32_PutUint32 unat_of_nat_length)
  have r2: "ReadFull (b @ rest) (length b) = Inr (b, rest)"
    by (rule ReadFull_append)
  show ?thesis
    unfolding Restore_def r1
    by (simp add: Let_def n r2 assms(2) Reset_def)
qed

lemma map_fst_update:
  "map fst (map (\<lambda>(k, s). if k = nm then (k, f s) else (k, s)) md) = map fst md"
  by (induction md) auto

lemma wf_store_update:
  assumes "wf_store md" "\<And>s. map_of md nm = Some s \<Longrightarrow> stream_ok nm (f s)"
  shows "wf_store (map (\<lambda>(k, s). if k = nm then (k, f s) else (k, s)) md)"
proof -
  have keys: "map fst (map (\<lambda>(k, s). if k = nm then (k, f s) else (k, s)) md) = map fst md"
    by (rule map_fst_update)
  have "stream_ok (fst kst) (snd kst)"
    if "kst \<in> set (map (\<lambda>(k, s). if k = nm then (k, f s) else (k, s)) md)" for kst
  proof -
    have "kst \<in> (\<lambda>(k, s). if k = nm then (k, f s) else (k, s)) ` set md"
      using that by simp
    then obtain x where x: "kst = (\<lambda>(k, s). if k = nm then (k, f s) else (k, s)) x" "x \<in> set md"
      by (rule imageE)
    obtain k s where "x = (k, s)"
      by (cases x)
    then have ks: "(k, s) \<in> set md" "kst = (if k = nm then (k, f s) else (k, s))"
      using x by simp_all
    have "map_of md k = Some s"
      using assms(1) ks(1) by (simp add: wf_store_def)
    moreover have "stream_ok k s"
      using assms(1) ks(1) by (auto simp: wf_store_def)
    ultimately show ?thesis
      using ks(2) assms(2) by auto
  qed
  then show ?thesis
    using assms(1) unfolding wf_store_def keys by blast
qed

lemma wf_store_lookup:
  assumes "wf_store md" "map_of md nm = Some st"
  shows "stream_ok nm st"
  using assms map_of_SomeD [OF assms(2)] by (auto simp: wf_store_def)

lemma AddPartition_wf:
  assumes "wf_store md" "AddPartition md pp rec = Inr (p, md1)"
  shows "wf_store md1" and "fst ` set md1 = insert (Stream pp) (fst ` set md)"
proof -
  show "wf_store md1"
  proof (cases "map_of md (Stream pp)")
    case None
    then have md1: "md1 = md @ [(Stream pp, \<lparr>name = Stream pp,
                       partitions = [(Id_p pp, \<lparr>Partition = pp, recovered = rec, started = \<not> rec\<rparr>)]\<rparr>)]"
      using assms(2) by (auto simp: AddPartition_def Let_def)
    have "Stream pp \<notin> fst ` set md"
      using None by (simp add: map_of_eq_None_iff)
    then show ?thesis
      using assms(1) unfolding md1 wf_store_def stream_ok_def by auto
  next
    case (Some st)
    then have none: "map_of (partitions st) (Id_p pp) = None"
      using assms(2) by (cases "map_of (partitions st) (Id_p pp)") (simp_all add: AddPartition_def Let_def)
    have md1: "md1 = map (\<lambda>(k, s). if k = Stream pp
                 then (k, s\<lparr>partitions := partitions s @ [(Id_p pp, \<lparr>Partition = pp, recovered = rec, started = \<not> rec\<rparr>)]\<rparr>)
                 else (k, s)) md"
      using assms(2) Some none by (auto simp: AddPartition_def Let_def)
    have ok: "stream_ok (Stream pp) st"
      using wf_store_lookup [OF assms(1) Some] .
    have "Id_p pp \<notin> fst ` set (partitions st)"
      using none by (simp add: map_of_eq_None_iff)
    then have "stream_ok (Stream pp)
                 (st\<lparr>partitions := partitions st @ [(Id_p pp, \<lparr>Partition = pp, recovered = rec, started = \<not> rec\<rparr>)]\<rparr>)"
      using ok unfolding stream_ok_def by auto
    then show ?thesis
      unfolding md1 using assms(1) Some by (intro wf_store_update) auto
  qed
  show "fst ` set md1 = insert (Stream pp) (fst ` set md)"
  proof (cases "map_of md (Stream pp)")
    case None
    then show ?thesis
      using assms(2) by (auto simp: AddPartition_def Let_def)
  next
    case (Some st)
    have in_md: "Stream pp \<in> fst ` set md"
      using Some by (metis map_of_eq_None_iff option.distinct(1))
    have none: "map_of (partitions st) (Id_p pp) = None"
      using assms(2) Some
      by (cases "map_of (partitions st) (Id_p pp)") (simp_all add: AddPartition_def Let_def)
    have md1: "md1 = map (\<lambda>(k, s). if k = Stream pp
                 then (k, s\<lparr>partitions := partitions s @ [(Id_p pp, \<lparr>Partition = pp, recovered = rec, started = \<not> rec\<rparr>)]\<rparr>)
                 else (k, s)) md"
      using assms(2) Some none by (auto simp: AddPartition_def Let_def)
    have "set (map fst md1) = set (map fst md)"
      unfolding md1 by (simp only: map_fst_update)
    then have "fst ` set md1 = fst ` set md"
      by simp
    then show ?thesis
      using in_md by auto
  qed
qed

lemma restorePartitions_wf:
  assumes "wf_store md" "restorePartitions md pps = (None, md1)"
  shows "wf_store md1 \<and> fst ` set md1 = fst ` set md \<union> Stream ` set pps"
  using assms
proof (induction pps arbitrary: md)
  case Nil
  then show ?case by simp
next
  case (Cons pp pps)
  show ?case
  proof (cases "AddPartition md pp False")
    case (Inl err)
    then show ?thesis
      using Cons.prems(2) by (simp add: applyCreatePartition_def split: if_splits)
  next
    case (Inr r)
    obtain p md2 where r: "r = (p, md2)" by (cases r)
    have a: "applyCreatePartition md pp False = (None, md2)"
      using Inr r by (simp add: applyCreatePartition_def)
    have wf2: "wf_store md2" and k2: "fst ` set md2 = insert (Stream pp) (fst ` set md)"
      using AddPartition_wf [OF Cons.prems(1) Inr [unfolded r]] by blast+
    have "restorePartitions md2 pps = (None, md1)"
      using Cons.prems(2) a by simp
    from Cons.IH [OF wf2 this] k2 show ?thesis
      by auto
  qed
qed

lemma wf_store_empty: "wf_store []"
  by (simp add: wf_store_def)

lemma Restore_Snapshot:
  assumes "wf_store md"
  shows "\<exists>md1. restorePartitions [] (Partitions (Snapshot md)) = (None, md1) \<and>
           (\<forall>nm i. GetPartition md1 nm i = map_option recreated (GetPartition md nm i)) \<and>
           (\<forall>nm. (GetStream md1 nm = None) = (GetStream md nm = None)) \<and> wf_store md1"
proof -
  have e: "\<forall>pp \<in> set (Partitions (Snapshot md)). GetPartition [] (Stream pp) (Id_p pp) = None"
    by (simp add: GetPartition_def)
  obtain md1 where r: "restorePartitions [] (Partitions (Snapshot md)) = (None, md1)"
    and l: "\<And>nm i. GetPartition md1 nm i
              = (case find (\<lambda>pp. Stream pp = nm \<and> Id_p pp = i) (Partitions (Snapshot md)) of
                   Some pp \<Rightarrow> Some \<lparr>Partition = pp, recovered = False, started = True\<rparr>
                 | None \<Rightarrow> GetPartition [] nm i)"
    using restorePartitions_lookup [OF Snapshot_keys(1) [OF assms] e] by blast
  have g: "GetPartition md1 nm i = map_option recreated (GetPartition md nm i)" for nm i
    unfolding l Snapshot_find [OF assms]
    by (cases "GetPartition md nm i") (simp_all add: GetPartition_def recreated_def)
  have w: "wf_store md1" and k: "fst ` set md1 = fst ` set md"
    using restorePartitions_wf [OF wf_store_empty r] Snapshot_keys(2) [OF assms] by auto
  have "(GetStream md1 nm = None) = (GetStream md nm = None)" for nm
    using k by (simp add: GetStream_def map_of_eq_None_iff)
  then show ?thesis
    using r g w by blast
qed

text \<open>
  The invariant holds of the empty store and every operation of the state machine keeps
  it, so it holds of every store that \<open>Apply\<close> and \<open>Restore\<close> reach.
\<close>

lemma GetPartition_wf:
  assumes "wf_store md" "GetPartition md nm i = Some p"
  shows "Stream (Partition p) = nm \<and> Id_p (Partition p) = i"
proof -
  obtain st where st: "map_of md nm = Some st" and p: "map_of (partitions st) i = Some p"
    using assms(2) by (auto simp: GetPartition_def split: option.splits)
  have "stream_ok nm st"
    using wf_store_lookup [OF assms(1) st] .
  then show ?thesis
    using map_of_SomeD [OF p] unfolding stream_ok_def by fastforce
qed

lemma stream_ok_map:
  assumes "stream_ok nm st"
    "\<And>j q. (j, q) \<in> set (partitions st) \<Longrightarrow>
       Stream (Partition (g j q)) = nm \<and> Id_p (Partition (g j q)) = j"
  shows "stream_ok nm (st\<lparr>partitions := map (\<lambda>(j, q). (j, g j q)) (partitions st)\<rparr>)"
proof -
  have keys: "map fst (map (\<lambda>(j, q). (j, g j q)) (partitions st)) = map fst (partitions st)"
    by (induction "partitions st") (auto simp: case_prod_beta)
  have d: "distinct (map fst (map (\<lambda>(j, q). (j, g j q)) (partitions st)))"
    using assms(1) by (simp only: keys) (simp add: stream_ok_def)
  have a: "\<forall>ip \<in> set (map (\<lambda>(j, q). (j, g j q)) (partitions st)).
             Stream (Partition (snd ip)) = nm \<and> Id_p (Partition (snd ip)) = fst ip"
    using assms(2) by auto
  have n: "map (\<lambda>(j, q). (j, g j q)) (partitions st) \<noteq> []" "name st = nm"
    using assms(1) by (simp_all add: stream_ok_def)
  show ?thesis
    using d a n by (simp add: stream_ok_def)
qed

lemma putPartition_wf:
  assumes "wf_store md" "Stream (Partition p) = nm" "Id_p (Partition p) = i"
  shows "wf_store (putPartition md nm i p)"
proof -
  have "stream_ok nm (st\<lparr>partitions := map (\<lambda>(j, q). if j = i then (j, p) else (j, q)) (partitions st)\<rparr>)"
    if "map_of md nm = Some st" for st
  proof -
    have eq: "(\<lambda>(j, q). if j = i then (j, p) else (j, q)) = (\<lambda>(j, q). (j, if j = i then p else q))"
      by (auto simp: fun_eq_iff)
    have ok: "stream_ok nm st"
      using wf_store_lookup [OF assms(1) that] .
    show ?thesis
      unfolding eq
      using ok assms(2,3) by (intro stream_ok_map) (auto simp: stream_ok_def)
  qed
  then show ?thesis
    unfolding putPartition_def by (intro wf_store_update [OF assms(1)])
qed

lemma mutation_keys:
  assumes "mutation log p e = Inr p1"
  shows "Stream (Partition (SetEpoch p1 ep)) = Stream (Partition p) \<and>
         Id_p (Partition (SetEpoch p1 ep)) = Id_p (Partition p)"
  using assms
  by (cases log)
     (auto simp: RemoveFromISR_def AddToISR_def SetLeader_def SetEpoch_def split: if_splits)

lemma mapDelete_wf:
  assumes "wf_store md"
  shows "wf_store (mapDelete k md)"
  using assms distinct_fst_mapDelete [of md k]
  by (auto simp: wf_store_def set_mapDelete)

lemma Pause_ok:
  assumes "stream_ok nm st" "Pause st ids resumeAll = Inr st1"
  shows "stream_ok nm st1"
proof -
  have eq: "(\<lambda>(j, q). if ids = [] \<or> j \<in> set ids
                       then (j, q\<lparr>Partition := (Partition q)\<lparr>Paused := True\<rparr>\<rparr>) else (j, q))
            = (\<lambda>(j, q). (j, if ids = [] \<or> j \<in> set ids
                       then q\<lparr>Partition := (Partition q)\<lparr>Paused := True\<rparr>\<rparr> else q))"
    by (auto simp: fun_eq_iff)
  have st1: "st1 = st\<lparr>partitions := map (\<lambda>(j, q). (j, if ids = [] \<or> j \<in> set ids
                       then q\<lparr>Partition := (Partition q)\<lparr>Paused := True\<rparr>\<rparr> else q)) (partitions st)\<rparr>"
    using assms(2) unfolding Pause_def eq by (simp split: if_splits)
  show ?thesis
    unfolding st1 using assms(1) by (intro stream_ok_map) (auto simp: stream_ok_def)
qed

lemma apply_log_wf:
  assumes "wf_store md"
  shows "wf_store (snd (apply_log md log e rec))"
proof (cases "target log")
  case (Some t)
  obtain strm i where t: "t = (strm, i)" by (cases t)
  show ?thesis
  proof (cases "GetPartition md strm i")
    case None
    then show ?thesis
      using apply_log_missing [of log strm i md e rec] Some t assms by simp
  next
    case (Some p)
    have keys: "Stream (Partition p) = strm \<and> Id_p (Partition p) = i"
      using GetPartition_wf [OF assms Some] .
    have "wf_store (putPartition md strm i (SetEpoch p1 e))" if "mutation log p e = Inr p1" for p1
      using mutation_keys [OF that, of e] keys by (intro putPartition_wf [OF assms]) simp_all
    then show ?thesis
      using apply_log_mutation [of log strm i md p e rec] \<open>target log = Some t\<close> t Some assms
      by (cases "mutation log p e") (simp_all split: if_splits)
  qed
next
  case None
  show ?thesis
  proof (cases log)
    case (CreatePartitionOp pp)
    show ?thesis
    proof (cases "AddPartition md (pp\<lparr>LeaderEpoch := e, Epoch := e\<rparr>) rec")
      case (Inl err)
      then show ?thesis
        using assms CreatePartitionOp by (simp add: applyCreatePartition_def Let_def)
    next
      case (Inr r)
      obtain p md1 where r: "r = (p, md1)" by (cases r)
      have "wf_store md1"
        using AddPartition_wf(1) [OF assms Inr [unfolded r]] .
      then show ?thesis
        using CreatePartitionOp Inr r by (simp add: applyCreatePartition_def Let_def)
    qed
  next
    case (DeleteStreamOp strm)
    show ?thesis
      using assms mapDelete_wf [OF assms] DeleteStreamOp
      by (cases "GetStream md strm")
         (simp_all add: applyDeleteStream_def CloseAndDeleteStream_def)
  next
    case (PauseStreamOp strm ids resumeAll)
    show ?thesis
    proof (cases "GetStream md strm")
      case None
      then show ?thesis
        using assms PauseStreamOp by (simp add: applyPauseStream_def)
    next
      case (Some st)
      then have st: "map_of md strm = Some st"
        by (simp add: GetStream_def)
      show ?thesis
      proof (cases "Pause st ids resumeAll")
        case (Inl err)
        then show ?thesis
          using assms PauseStreamOp Some by (simp add: applyPauseStream_def)
      next
        case (Inr st1)
        have "stream_ok strm st1"
          using Pause_ok [OF wf_store_lookup [OF assms st] Inr] .
        then have "wf_store (map (\<lambda>(k, s). if k = strm then (k, st1) else (k, s)) md)"
          by (intro wf_store_update [OF assms])
        then show ?thesis
          using PauseStreamOp Some Inr by (simp add: applyPauseStream_def)
      qed
    qed
  next
    case (OtherOp opname)
    then show ?thesis
      using assms by simp
  qed (use None in simp_all)
qed

lemma startPartitions_ok:
  "map fst (snd (startPartitions ps)) = map fst ps \<and>
   (\<forall>ip \<in> set (snd (startPartitions ps)). \<exists>p. (fst ip, p) \<in> set ps \<and> Partition (snd ip) = Partition p)"
proof (induction ps)
  case Nil
  then show ?case by simp
next
  case (Cons x ps)
  obtain i p where x: "x = (i, p)" by (cases x)
  have "Partition (snd (StartRecovered p)) = Partition p"
    by (simp add: StartRecovered_def)
  then show ?case
    using Cons.IH unfolding x startPartitions_Cons by (simp del: startPartitions.simps) blast
qed

lemma startStreams_wf:
  assumes "wf_store md"
  shows "wf_store (snd (startStreams md))"
proof -
  have keys: "map fst (snd (startStreams m)) = map fst m" for m
  proof (induction m)
    case Nil
    then show ?case by simp
  next
    case (Cons x m)
    obtain k st where x: "x = (k, st)" by (cases x)
    show ?case
      using Cons.IH unfolding x startStreams_Cons by (simp del: startStreams.simps)
  qed
  have oks: "\<forall>kst \<in> set (snd (startStreams m)). stream_ok (fst kst) (snd kst)"
    if "\<forall>kst \<in> set m. stream_ok (fst kst) (snd kst)" for m
    using that
  proof (induction m)
    case Nil
    then show ?case by simp
  next
    case (Cons x m)
    obtain k st where x: "x = (k, st)" by (cases x)
    have ok: "stream_ok k st"
      using Cons.prems x by simp
    have "stream_ok k (st\<lparr>partitions := snd (startPartitions (partitions st))\<rparr>)"
      using ok startPartitions_ok [of "partitions st"] unfolding stream_ok_def
      by (cases "partitions st") (auto simp del: startPartitions.simps, (metis fst_conv snd_conv)+)
    then show ?case
      using Cons.IH Cons.prems unfolding x startStreams_Cons
      by (simp del: startStreams.simps)
  qed
  show ?thesis
    using assms oks [of md] unfolding wf_store_def keys by blast
qed

lemma Apply_wf:
  assumes "wf_store (metadata s)"
  shows "wf_store (metadata (snd (Apply s l)))"
proof (cases "establishBarrier s l")
  case (Inl err)
  then show ?thesis
    using assms by (simp add: Apply_cases)
next
  case (Inr s1)
  have m1: "wf_store (metadata s1)"
    using establishBarrier_fields(1) [OF Inr] assms by simp
  have e: "wf_store (metadata (snd (applyEntry s2 l rec)))" if "metadata s2 = metadata s1" for s2 rec
    using m1 that apply_log_wf [of "metadata s1"]
    by (cases "Data_log l") (simp_all add: applyEntry_fields(1))
  show ?thesis
    using Inr e [of s1] e [of "s1\<lparr>latestRecoveredLog := None\<rparr>"] startStreams_wf
    by (simp add: Apply_cases finishedRecovery_fields(2))
qed

subsection \<open>The snapshot round trip\<close>

text \<open>
  C4, as stated, fails: persisting a snapshot does not always write the length prefix and
  the encoded snapshot. When the first \<open>Write\<close> of the sink fails after two bytes,
  \<open>Persist\<close> returns the error, the sink holds two bytes and is cancelled. And the
  prefix is the length modulo \<open>2^32\<close>: for an encoding of \<open>2^32\<close> bytes all writes
  succeed, the prefix is zero and \<open>2^32\<close> bytes follow it.
\<close>

theorem Persist_write_fails_counterexample:
  "Persist (Snapshot md3) (\<lambda>f. Inr [7]) sink0
       ((sink_ok 1)\<lparr>sizeWrite := (2, Some (IOError ''ENOSPC''))\<rparr>)
     = (Some (IOError ''ENOSPC''),
        \<lparr>written = [0, 0], sinkClosed = False, sinkCancelled = True\<rparr>) \<and>
   fst (Persist (Snapshot md3) (\<lambda>f. Inr (replicate (2 ^ 32) 0)) sink0 (sink_ok (2 ^ 32))) = None \<and>
   written (snd (Persist (Snapshot md3) (\<lambda>f. Inr (replicate (2 ^ 32) 0)) sink0 (sink_ok (2 ^ 32))))
     = [0, 0, 0, 0] @ replicate (2 ^ 32) 0"
proof -
  have z: "(4294967296 :: 32 word) = 0"
    by simp
  have p: "PutUint32 0 = [0, 0, 0, 0]"
    by (simp add: PutUint32_def drop_bit_eq_div)
  have a: "Persist (Snapshot md3) (\<lambda>f. Inr [7]) sink0
       ((sink_ok 1)\<lparr>sizeWrite := (2, Some (IOError ''ENOSPC''))\<rparr>)
     = (Some (IOError ''ENOSPC''),
        \<lparr>written = [0, 0], sinkClosed = False, sinkCancelled = True\<rparr>)"
    by (simp add: Persist_def sink0_def sink_ok_def PutUint32_def drop_bit_eq_div Let_def)
  have b: "Persist (Snapshot md3) (\<lambda>f. Inr (replicate (2 ^ 32) 0)) sink0 (sink_ok (2 ^ 32))
             = (None, sink0\<lparr>written := written sink0 @ PutUint32 0 @ replicate (2 ^ 32) 0,
                              sinkClosed := True\<rparr>)"
    by (simp add: Persist_def Let_def sink_ok_def z)
  show ?thesis
    unfolding a b p by (simp add: sink0_def)
qed

text \<open>
  C4, amended: for a store \<open>md\<close> that satisfies the invariant of the metadata store,
  when \<open>Marshal\<close> encodes the snapshot of \<open>md\<close> as \<open>b\<close>, shorter than \<open>2^32\<close>
  bytes, and the two writes and the close of the sink succeed, \<open>Persist\<close> returns nil
  and has appended to the sink four bytes and then \<open>b\<close>, and closed it; the four bytes
  are the length of \<open>b\<close> in big-endian order. When \<open>Unmarshal\<close> decodes \<open>b\<close> to the
  snapshot, \<open>Restore\<close> on those bytes (whatever follows them, and whatever the store
  held before) returns nil and leaves one store \<open>md1\<close>: it has the streams of \<open>md\<close>
  and, under each stream and id, the partition of \<open>md\<close> with the same metadata,
  \<open>recovered = false\<close> and started; it satisfies the invariant; and when no partition of
  \<open>md\<close> is waiting to be started, every lookup in \<open>md1\<close> gives what it gives in
  \<open>md\<close>.
\<close>

theorem snapshot_round_trip:
  assumes "wf_store md" "Marshal (Snapshot md) = Inr b" "length b < 2 ^ 32"
    "snd (sizeWrite io) = None" "snd (dataWrite io) = None" "sinkClose io = None"
    "Unmarshal b = Inr (Snapshot md)"
  shows "Persist (Snapshot md) Marshal snk io
           = (None, snk\<lparr>written := written snk @ PutUint32 (of_nat (length b)) @ b,
                          sinkClosed := True\<rparr>) \<and>
         (\<exists>b0 b1 b2 b3. PutUint32 (of_nat (length b)) = [b0, b1, b2, b3] \<and>
            length b = unat b0 * 2 ^ 24 + unat b1 * 2 ^ 16 + unat b2 * 2 ^ 8 + unat b3) \<and>
         (\<exists>md1. (\<forall>md0 rest. Restore md0 (PutUint32 (of_nat (length b)) @ b @ rest) Unmarshal
                               = (None, md1)) \<and>
            (\<forall>nm i. GetPartition md1 nm i = map_option recreated (GetPartition md nm i)) \<and>
            (\<forall>nm. (GetStream md1 nm = None) = (GetStream md nm = None)) \<and>
            wf_store md1 \<and>
            ((\<forall>nm i p. GetPartition md nm i = Some p \<longrightarrow> \<not> recovered p \<and> started p) \<longrightarrow>
             (\<forall>nm i. GetPartition md1 nm i = GetPartition md nm i)))"
proof -
  have p: "Persist (Snapshot md) Marshal snk io
           = (None, snk\<lparr>written := written snk @ PutUint32 (of_nat (length b)) @ b,
                          sinkClosed := True\<rparr>)"
    using Persist_written [where Marshal = Marshal and f = "Snapshot md", OF assms(2,4,5,6)] .
  have e: "\<exists>b0 b1 b2 b3. PutUint32 (of_nat (length b)) = [b0, b1, b2, b3] \<and>
            length b = unat b0 * 2 ^ 24 + unat b1 * 2 ^ 16 + unat b2 * 2 ^ 8 + unat b3"
    using PutUint32_big_endian [of "of_nat (length b)"] unat_of_nat_length [OF assms(3)]
    by simp
  obtain md1 where r: "restorePartitions [] (Partitions (Snapshot md)) = (None, md1)"
    and g: "\<And>nm i. GetPartition md1 nm i = map_option recreated (GetPartition md nm i)"
    and s: "\<And>nm. (GetStream md1 nm = None) = (GetStream md nm = None)"
    and w: "wf_store md1"
    using Restore_Snapshot [OF assms(1)] by blast
  have all: "\<forall>md0 rest. Restore md0 (PutUint32 (of_nat (length b)) @ b @ rest) Unmarshal = (None, md1)"
    using Restore_bytes [where Unmarshal = Unmarshal and b = b, OF assms(3,7)] r by simp
  have same: "\<forall>nm i. GetPartition md1 nm i = GetPartition md nm i"
    if h: "\<forall>nm i p. GetPartition md nm i = Some p \<longrightarrow> \<not> recovered p \<and> started p"
  proof (intro allI)
    fix nm i
    show "GetPartition md1 nm i = GetPartition md nm i"
    proof (cases "GetPartition md nm i")
      case None
      then show ?thesis by (simp add: g)
    next
      case (Some q)
      then have "\<not> recovered q \<and> started q"
        using h by blast
      then have "recreated q = q"
        by (simp add: recreated_def)
      then show ?thesis
        using Some by (simp add: g)
    qed
  qed
  show ?thesis
    using p e all g s w same by blast
qed

theorem snapshot_round_trip_witness:
  "wf_store md3 \<and> length [7 :: byte] < 2 ^ 32 \<and>
   Persist (Snapshot md3) (\<lambda>f. Inr [7]) sink0 (sink_ok 1)
     = (None, \<lparr>written = [0, 0, 0, 1, 7], sinkClosed = True, sinkCancelled = False\<rparr>) \<and>
   Restore [(''old'', \<lparr>name = ''old'', partitions = []\<rparr>)] [0, 0, 0, 1, 7]
       (\<lambda>buf. if buf = [7] then Inr (Snapshot md3) else Inl (ErrSyntax ''snapshot''))
     = (None, md3) \<and>
   GetPartition md3 ''orders'' 0 = Some p3 \<and> \<not> recovered p3 \<and> started p3 \<and>
   recreated p3 = p3"
proof -
  have w: "wf_store md3"
    by (simp add: wf_store_def stream_ok_def md3_def p3_def pp0_def)
  have l: "length [7 :: byte] < 2 ^ 32"
    by simp
  have io: "snd (sizeWrite (sink_ok 1)) = None" "snd (dataWrite (sink_ok 1)) = None"
    "sinkClose (sink_ok 1) = None"
    by (simp_all add: sink_ok_def)
  have u: "(\<lambda>buf. if buf = [7 :: byte] then Inr (Snapshot md3) else Inl (ErrSyntax ''snapshot'')) [7]
             = Inr (Snapshot md3)"
    by simp
  have m: "(\<lambda>f :: MetadataSnapshot. (Inr [7] :: error + byte list)) (Snapshot md3) = Inr [7]"
    by simp
  have pre: "PutUint32 1 = [0, 0, 0, 1]"
    by (simp add: PutUint32_def drop_bit_eq_div)
  have r: "Restore [(''old'', \<lparr>name = ''old'', partitions = []\<rparr>)] [0, 0, 0, 1, 7]
       (\<lambda>buf. if buf = [7] then Inr (Snapshot md3) else Inl (ErrSyntax ''snapshot''))
     = (None, md3)"
    by (simp add: Restore_def ReadFull_def Let_def Reset_def Snapshot_def GetStreams_def push_bit_eq_mult
        GetPartitions_def md3_def p3_def pp0_def applyCreatePartition_def AddPartition_def)
  have g: "GetPartition md3 ''orders'' 0 = Some p3" "\<not> recovered p3 \<and> started p3"
    "recreated p3 = p3"
    by (simp_all add: GetPartition_def md3_def recreated_def p3_def)
  show ?thesis
    using w l r g
      snapshot_round_trip [of md3 "\<lambda>f. Inr [7]" "[7]" "sink_ok 1"
        "\<lambda>buf. if buf = [7] then Inr (Snapshot md3) else Inl (ErrSyntax ''snapshot'')" sink0,
        OF w m l io u]
    by (simp add: pre sink0_def)
qed

end
